theory Spec2Isabelle
  imports Main "HOL-Library.AList"
begin

section \<open>Calendar dates\<close>

text \<open>
  The script handles calendar days as Python \<open>datetime\<close> values.  Both run parameters
  are parsed from date-only formats and every stamp of the tables is parsed with
  \<open>%m/%d/%Y\<close>, so the time of day is midnight throughout and only the three date fields
  are kept.  A \<open>datetime\<close> always satisfies the field check of its constructor: the year
  lies in 1..9999, the month in 1..12 and the day in 1..(length of the month).
\<close>

datatype error =
  OverflowError | ValueError | KeyError | FileNotFoundError | FileExistsError | OSError

record datetime =
  year :: int
  month :: int
  day :: int

definition is_leap :: "int \<Rightarrow> bool" where
  "is_leap y = (y mod 4 = 0 \<and> (y mod 100 \<noteq> 0 \<or> y mod 400 = 0))"

definition days_in_month :: "int \<Rightarrow> int \<Rightarrow> int" where
  "days_in_month y m =
     (if m = 2 then (if is_leap y then 29 else 28)
      else if m = 4 \<or> m = 6 \<or> m = 9 \<or> m = 11 then 30 else 31)"

definition valid_date :: "datetime \<Rightarrow> bool" where
  "valid_date d =
     (1 \<le> year d \<and> year d \<le> 9999 \<and> 1 \<le> month d \<and> month d \<le> 12 \<and>
      1 \<le> day d \<and> day d \<le> days_in_month (year d) (month d))"

text \<open>Comparison of two stamps is the lexicographic comparison of their fields.\<close>

definition date_less :: "datetime \<Rightarrow> datetime \<Rightarrow> bool" where
  "date_less a b =
     (year a < year b \<or> (year a = year b \<and>
       (month a < month b \<or> (month a = month b \<and> day a < day b))))"

definition date_le :: "datetime \<Rightarrow> datetime \<Rightarrow> bool" where
  "date_le a b = (date_less a b \<or> (year a = year b \<and> month a = month b \<and> day a = day b))"

text \<open>\<open>datetime(y, m, d)\<close>: the constructor raises \<open>ValueError\<close> on fields out of range.\<close>

definition mk_datetime :: "int \<Rightarrow> int \<Rightarrow> int \<Rightarrow> error + datetime" where
  "mk_datetime y m d =
     (let r = \<lparr>year = y, month = m, day = d\<rparr>
      in if valid_date r then Inr r else Inl ValueError)"

text \<open>\<open>dt.replace(day=n)\<close> builds a new stamp through the constructor.\<close>

definition replace_day :: "datetime \<Rightarrow> int \<Rightarrow> error + datetime" where
  "replace_day dt n = mk_datetime (year dt) (month dt) n"

text \<open>
  \<open>dt + timedelta(days=n)\<close> moves \<open>n\<close> calendar days forward (backward for a negative
  \<open>n\<close>) and raises \<open>OverflowError\<close> when the result leaves the range of
  \<open>datetime\<close>.  The move is modelled one day at a time.
\<close>

definition next_day :: "datetime \<Rightarrow> datetime" where
  "next_day d =
     (if day d < days_in_month (year d) (month d)
        then \<lparr>year = year d, month = month d, day = day d + 1\<rparr>
      else if month d < 12 then \<lparr>year = year d, month = month d + 1, day = 1\<rparr>
      else \<lparr>year = year d + 1, month = 1, day = 1\<rparr>)"

definition prev_day :: "datetime \<Rightarrow> datetime" where
  "prev_day d =
     (if 1 < day d then \<lparr>year = year d, month = month d, day = day d - 1\<rparr>
      else if 1 < month d
        then \<lparr>year = year d, month = month d - 1,
              day = days_in_month (year d) (month d - 1)\<rparr>
      else \<lparr>year = year d - 1, month = 12, day = 31\<rparr>)"

definition plus_timedelta :: "datetime \<Rightarrow> int \<Rightarrow> error + datetime" where
  "plus_timedelta dt n =
     (let r = (if 0 \<le> n then (next_day ^^ nat n) dt else (prev_day ^^ nat (- n)) dt)
      in if valid_date r then Inr r else Inl OverflowError)"

definition minus_timedelta :: "datetime \<Rightarrow> int \<Rightarrow> error + datetime" where
  "minus_timedelta dt n = plus_timedelta dt (- n)"

text \<open>
  \<open>dt + relativedelta(years=ys, months=ms)\<close> of \<open>dateutil\<close>, for \<open>ms\<close> between -12
  and 12: the month is moved with a carry into the year, the day is cut down to the
  length of the month reached, and the result is built with \<open>dt.replace\<close>, which
  raises \<open>ValueError\<close> when the year leaves the range.
\<close>

definition plus_relativedelta :: "datetime \<Rightarrow> int \<Rightarrow> int \<Rightarrow> error + datetime" where
  "plus_relativedelta dt ys ms =
     (let y0 = year dt + ys;
          m0 = month dt + ms;
          y = (if ms \<noteq> 0 \<and> 12 < m0 then y0 + 1 else if ms \<noteq> 0 \<and> m0 < 1 then y0 - 1 else y0);
          m = (if ms \<noteq> 0 \<and> 12 < m0 then m0 - 12 else if ms \<noteq> 0 \<and> m0 < 1 then m0 + 12 else m0);
          dd = min (days_in_month y m) (day dt)
      in mk_datetime y m dd)"

section \<open>The period boundary calculator\<close>

text \<open>
  The frequency is one of the four words that \<open>get_user_input\<close> accepts; it returns no
  other value.
\<close>

datatype frequency = Daily | Monthly | Quarterly | Annually

fun get_period_end_date :: "datetime \<Rightarrow> frequency \<Rightarrow> error + datetime" where
  "get_period_end_date start_date Daily = Inr start_date"
| "get_period_end_date start_date Monthly =
     (case replace_day start_date 28 of
        Inl e \<Rightarrow> Inl e
      | Inr d28 \<Rightarrow>
          (case plus_timedelta d28 4 of
             Inl e \<Rightarrow> Inl e
           | Inr next_month \<Rightarrow> minus_timedelta next_month (day next_month)))"
| "get_period_end_date start_date Quarterly =
     (let quarter = (month start_date - 1) div 3 + 1
      in if quarter = 1 then mk_datetime (year start_date) 3 31
         else if quarter = 2 then mk_datetime (year start_date) 6 30
         else if quarter = 3 then mk_datetime (year start_date) 9 30
         else mk_datetime (year start_date) 12 31)"
| "get_period_end_date start_date Annually = mk_datetime (year start_date) 12 31"

fun get_next_period_end :: "datetime \<Rightarrow> frequency \<Rightarrow> error + datetime" where
  "get_next_period_end current_date Daily = plus_timedelta current_date 1"
| "get_next_period_end current_date Monthly = plus_relativedelta current_date 0 1"
| "get_next_period_end current_date Quarterly = plus_relativedelta current_date 0 3"
| "get_next_period_end current_date Annually = plus_relativedelta current_date 1 0"

section \<open>Facts about the calendar operations\<close>

lemma dim_ge28: "28 \<le> days_in_month y m"
  by (simp add: days_in_month_def)

lemma dim_le31: "days_in_month y m \<le> 31"
  by (simp add: days_in_month_def)

lemma next_day_lt: "k < days_in_month y m \<Longrightarrow>
   next_day \<lparr>year = y, month = m, day = k\<rparr> = \<lparr>year = y, month = m, day = k + 1\<rparr>"
  by (simp add: next_day_def)

definition first_of_next :: "int \<Rightarrow> int \<Rightarrow> datetime" where
  "first_of_next y m = (if m < 12 then \<lparr>year = y, month = m + 1, day = 1\<rparr> else \<lparr>year = y + 1, month = 1, day = 1\<rparr>)"

lemma next_day_last: "k = days_in_month y m \<Longrightarrow>
   next_day \<lparr>year = y, month = m, day = k\<rparr> = first_of_next y m"
  by (simp add: next_day_def first_of_next_def)

lemma prev_day_gt: "1 < k \<Longrightarrow>
   prev_day \<lparr>year = y, month = m, day = k\<rparr> = \<lparr>year = y, month = m, day = k - 1\<rparr>"
  by (simp add: prev_day_def)

lemma prev_day_first: "1 \<le> m \<Longrightarrow> m \<le> 12 \<Longrightarrow> prev_day (first_of_next y m) = \<lparr>year = y, month = m, day = days_in_month y m\<rparr>"
  by (auto simp add: prev_day_def first_of_next_def days_in_month_def)

lemma days_forward: "k + int n \<le> days_in_month y m \<Longrightarrow>
   (next_day ^^ n) \<lparr>year = y, month = m, day = k\<rparr> = \<lparr>year = y, month = m, day = k + int n\<rparr>"
proof (induction n)
  case 0
  then show ?case by simp
next
  case (Suc n)
  then have "(next_day ^^ n) \<lparr>year = y, month = m, day = k\<rparr> = \<lparr>year = y, month = m, day = k + int n\<rparr>"
    by simp
  moreover have "k + int n < days_in_month y m" using Suc.prems by simp
  ultimately show ?case by (simp add: next_day_lt add.assoc)
qed

lemma days_backward: "int n < k \<Longrightarrow>
   (prev_day ^^ n) \<lparr>year = y, month = m, day = k\<rparr> = \<lparr>year = y, month = m, day = k - int n\<rparr>"
proof (induction n)
  case 0
  then show ?case by simp
next
  case (Suc n)
  then have "(prev_day ^^ n) \<lparr>year = y, month = m, day = k\<rparr> = \<lparr>year = y, month = m, day = k - int n\<rparr>"
    by simp
  moreover have "1 < k - int n" using Suc.prems by simp
  ultimately show ?case by (simp add: prev_day_gt)
qed

lemma first_of_next_fields:
  "first_of_next y m = \<lparr>year = year (first_of_next y m), month = month (first_of_next y m), day = 1\<rparr>"
  by (simp add: first_of_next_def)

lemma four_days_on:
  "(next_day ^^ 4) \<lparr>year = y, month = m, day = 28\<rparr> =
     \<lparr>year = year (first_of_next y m), month = month (first_of_next y m),
      day = 32 - days_in_month y m\<rparr>"
proof -
  define D where "D = days_in_month y m"
  define a where "a = nat (D - 28)"
  define b where "b = 3 - a"
  define N where "N = first_of_next y m"
  have D: "28 \<le> D" "D \<le> 31" by (simp_all add: D_def dim_ge28 dim_le31)
  have four: "(4::nat) = b + (1 + a)" using D by (simp add: a_def b_def)
  have b: "1 + int b = 32 - D" using D by (simp add: a_def b_def)
  have s1: "(next_day ^^ a) \<lparr>year = y, month = m, day = 28\<rparr> = \<lparr>year = y, month = m, day = D\<rparr>"
    using D days_forward[of 28 a y m] by (simp add: a_def D_def)
  have s2: "next_day \<lparr>year = y, month = m, day = D\<rparr> = N"
    by (simp add: N_def D_def next_day_last)
  have N: "N = \<lparr>year = year N, month = month N, day = 1\<rparr>"
    unfolding N_def by (rule first_of_next_fields)
  have "1 + int b \<le> days_in_month (year N) (month N)"
    using dim_ge28[of "year N" "month N"] D unfolding b by simp
  then have "(next_day ^^ b) \<lparr>year = year N, month = month N, day = 1\<rparr>
      = \<lparr>year = year N, month = month N, day = 1 + int b\<rparr>"
    by (rule days_forward)
  then have s3: "(next_day ^^ b) N = \<lparr>year = year N, month = month N, day = 32 - D\<rparr>"
    using N b by simp
  have "(next_day ^^ 4) \<lparr>year = y, month = m, day = 28\<rparr> = (next_day ^^ b) N"
    unfolding four funpow_add by (simp add: s1 s2)
  then show ?thesis using s3 by (simp add: N_def D_def)
qed

lemma days_back_to_month_end:
  assumes "1 \<le> m" "m \<le> 12" "1 \<le> k" "k \<le> 4"
  shows "(prev_day ^^ nat k) \<lparr>year = year (first_of_next y m), month = month (first_of_next y m), day = k\<rparr>
     = \<lparr>year = y, month = m, day = days_in_month y m\<rparr>"
proof -
  define N where "N = first_of_next y m"
  define j where "j = nat (k - 1)"
  have N: "N = \<lparr>year = year N, month = month N, day = 1\<rparr>"
    unfolding N_def by (rule first_of_next_fields)
  have j: "nat k = Suc j" "k - int j = 1" "int j < k" using assms(3) by (simp_all add: j_def)
  have "(prev_day ^^ j) \<lparr>year = year N, month = month N, day = k\<rparr>
       = \<lparr>year = year N, month = month N, day = k - int j\<rparr>"
    using j(3) by (rule days_backward)
  then have "(prev_day ^^ j) \<lparr>year = year N, month = month N, day = k\<rparr> = N"
    using N j(2) by simp
  then have "(prev_day ^^ nat k) \<lparr>year = year N, month = month N, day = k\<rparr> = prev_day N"
    by (simp add: j(1))
  then show ?thesis using assms by (simp add: N_def prev_day_first)
qed

lemma first_of_next_valid:
  assumes "1 \<le> y" "y \<le> 9999" "1 \<le> m" "m \<le> 12" "\<not> (y = 9999 \<and> m = 12)" "1 \<le> k" "k \<le> 28"
  shows "valid_date \<lparr>year = year (first_of_next y m), month = month (first_of_next y m), day = k\<rparr>"
  using assms dim_ge28[of "year (first_of_next y m)" "month (first_of_next y m)"]
  by (auto simp add: valid_date_def first_of_next_def)

lemma first_of_next_overflow:
  "\<not> valid_date \<lparr>year = year (first_of_next 9999 12), month = month (first_of_next 9999 12), day = k\<rparr>"
  by (simp add: valid_date_def first_of_next_def)

lemma month_end:
  assumes v: "valid_date d" and n: "\<not> (year d = 9999 \<and> month d = 12)"
  shows "get_period_end_date d Monthly =
     Inr \<lparr>year = year d, month = month d, day = days_in_month (year d) (month d)\<rparr>"
proof -
  define D where "D = days_in_month (year d) (month d)"
  define N where "N = first_of_next (year d) (month d)"
  have D: "28 \<le> D" "D \<le> 31" by (simp_all add: D_def dim_ge28 dim_le31)
  have r: "replace_day d 28 = Inr \<lparr>year = year d, month = month d, day = 28\<rparr>"
    using v D by (simp add: replace_day_def mk_datetime_def valid_date_def D_def)
  have vn: "valid_date \<lparr>year = year N, month = month N, day = 32 - D\<rparr>"
    unfolding N_def using v n D by (intro first_of_next_valid) (simp_all add: valid_date_def)
  have p: "plus_timedelta \<lparr>year = year d, month = month d, day = 28\<rparr> 4
      = Inr \<lparr>year = year N, month = month N, day = 32 - D\<rparr>"
    using vn by (simp add: plus_timedelta_def four_days_on N_def D_def)
  have bk: "(prev_day ^^ nat (32 - D)) \<lparr>year = year N, month = month N, day = 32 - D\<rparr>
     = \<lparr>year = year d, month = month d, day = D\<rparr>"
    unfolding N_def D_def using v D
    by (intro days_back_to_month_end) (simp_all add: valid_date_def D_def)
  have vd: "valid_date \<lparr>year = year d, month = month d, day = D\<rparr>"
    using v D by (simp add: valid_date_def D_def)
  have m: "minus_timedelta \<lparr>year = year N, month = month N, day = 32 - D\<rparr> (32 - D)
     = Inr \<lparr>year = year d, month = month d, day = D\<rparr>"
    using D vd bk by (simp add: minus_timedelta_def plus_timedelta_def)
  show ?thesis using m by (simp add: r p D_def)
qed

lemma month_end_overflow:
  assumes v: "valid_date d" and n: "year d = 9999" "month d = 12"
  shows "get_period_end_date d Monthly = Inl OverflowError"
proof -
  have r: "replace_day d 28 = Inr \<lparr>year = 9999, month = 12, day = 28\<rparr>"
    using v n by (simp add: replace_day_def mk_datetime_def valid_date_def days_in_month_def)
  have p: "plus_timedelta \<lparr>year = 9999, month = 12, day = 28\<rparr> 4 = Inl OverflowError"
    by (simp add: plus_timedelta_def four_days_on first_of_next_overflow)
  show ?thesis by (simp add: r p)
qed

lemma mk_datetime_valid: "mk_datetime y m k = Inr r \<Longrightarrow> valid_date r \<and> year r = y \<and> month r = m \<and> day r = k"
  by (auto simp add: mk_datetime_def Let_def split: if_splits)

lemma plus_timedelta_valid: "plus_timedelta d n = Inr r \<Longrightarrow> valid_date r"
  by (auto simp add: plus_timedelta_def Let_def split: if_splits)

lemma plus_relativedelta_valid: "plus_relativedelta d ys ms = Inr r \<Longrightarrow> valid_date r"
  unfolding plus_relativedelta_def Let_def by (rule mk_datetime_valid[THEN conjunct1])

lemma get_next_period_end_valid: "get_next_period_end d f = Inr r \<Longrightarrow> valid_date r"
  by (cases f) (auto dest: plus_timedelta_valid plus_relativedelta_valid)

lemma date_le_refl: "date_le d d"
  by (simp add: date_le_def)

lemma quarter_end:
  assumes "valid_date d"
  shows "get_period_end_date d Quarterly =
     Inr \<lparr>year = year d, month = 3 * ((month d - 1) div 3 + 1),
          day = (if (month d - 1) div 3 + 1 = 1 \<or> (month d - 1) div 3 + 1 = 4 then 31 else 30)\<rparr>"
proof -
  have "(month d - 1) div 3 + 1 = 1 \<or> (month d - 1) div 3 + 1 = 2 \<or> (month d - 1) div 3 + 1 = 3 \<or> (month d - 1) div 3 + 1 = 4"
    using assms unfolding valid_date_def by presburger
  then show ?thesis using assms
    by (auto simp add: mk_datetime_def valid_date_def days_in_month_def Let_def)
qed

lemma year_end:
  assumes "valid_date d"
  shows "get_period_end_date d Annually = Inr \<lparr>year = year d, month = 12, day = 31\<rparr>"
  using assms by (simp add: mk_datetime_def valid_date_def days_in_month_def)

lemma get_period_end_date_valid:
  assumes "valid_date d" "get_period_end_date d f = Inr pe"
  shows "valid_date pe \<and> date_le d pe"
proof (cases f)
  case Daily
  then show ?thesis using assms by (auto simp: date_le_refl)
next
  case Monthly
  show ?thesis
  proof (cases "year d = 9999 \<and> month d = 12")
    case True
    then have "get_period_end_date d Monthly = Inl OverflowError"
      using assms(1) by (intro month_end_overflow) simp_all
    then show ?thesis using assms(2) Monthly by (simp del: get_period_end_date.simps)
  next
    case False
    then have "pe = \<lparr>year = year d, month = month d, day = days_in_month (year d) (month d)\<rparr>"
      using assms Monthly month_end[of d] by (simp del: get_period_end_date.simps)
    then show ?thesis using assms(1) by (auto simp add: valid_date_def date_le_def date_less_def)
  qed
next
  case Quarterly
  define q where "q = (month d - 1) div 3 + 1"
  have pe: "pe = \<lparr>year = year d, month = 3 * q, day = (if q = 1 \<or> q = 4 then 31 else 30)\<rparr>"
    using assms Quarterly quarter_end[of d] by (simp del: get_period_end_date.simps add: q_def)
  have qs: "(q = 1 \<and> month d \<le> 3) \<or> (q = 2 \<and> month d \<le> 6) \<or> (q = 3 \<and> month d \<le> 9) \<or> (q = 4 \<and> month d \<le> 12)"
    using assms(1) unfolding valid_date_def q_def by presburger
  have d31: "day d \<le> 31" using assms(1) dim_le31[of "year d" "month d"] by (simp add: valid_date_def)
  have d30: "month d = 6 \<or> month d = 9 \<Longrightarrow> day d \<le> 30"
    using assms(1) by (auto simp add: valid_date_def days_in_month_def)
  have y: "1 \<le> year d" "year d \<le> 9999" using assms(1) by (simp_all add: valid_date_def)
  from qs show ?thesis
  proof (elim disjE conjE)
    assume "q = 1" "month d \<le> 3"
    then show ?thesis using pe d31 y by (auto simp add: valid_date_def date_le_def date_less_def days_in_month_def)
  next
    assume "q = 2" "month d \<le> 6"
    then show ?thesis using pe d30 y by (auto simp add: valid_date_def date_le_def date_less_def days_in_month_def)
  next
    assume "q = 3" "month d \<le> 9"
    then show ?thesis using pe d30 y by (auto simp add: valid_date_def date_le_def date_less_def days_in_month_def)
  next
    assume "q = 4" "month d \<le> 12"
    then show ?thesis using pe d31 y by (auto simp add: valid_date_def date_le_def date_less_def days_in_month_def)
  qed
next
  case Annually
  then have "pe = \<lparr>year = year d, month = 12, day = 31\<rparr>"
    using assms year_end[of d] by (simp del: get_period_end_date.simps)
  then show ?thesis using assms(1) dim_le31[of "year d" "month d"]
    by (auto simp add: valid_date_def date_le_def date_less_def days_in_month_def)
qed

text \<open>
  The proleptic Gregorian ordinal of a day (\<open>date.toordinal\<close>): day 1 is 0001-01-01.
\<close>

definition days_before_year :: "int \<Rightarrow> int" where
  "days_before_year y = (y - 1) * 365 + (y - 1) div 4 - (y - 1) div 100 + (y - 1) div 400"

definition days_before_month :: "int \<Rightarrow> int \<Rightarrow> int" where
  "days_before_month y m =
     [0, 31, 59, 90, 120, 151, 181, 212, 243, 273, 304, 334] ! nat (m - 1)
       + (if 2 < m \<and> is_leap y then 1 else 0)"

definition toordinal :: "datetime \<Rightarrow> int" where
  "toordinal d = days_before_year (year d) + days_before_month (year d) (month d) + day d"

lemma days_before_month_step:
  assumes "1 \<le> m" "m \<le> 11"
  shows "days_before_month y (m + 1) = days_before_month y m + days_in_month y m"
proof -
  have "m = 1 \<or> m = 2 \<or> m = 3 \<or> m = 4 \<or> m = 5 \<or> m = 6 \<or> m = 7 \<or> m = 8 \<or> m = 9 \<or> m = 10 \<or> m = 11"
    using assms by arith
  then show ?thesis
    by (elim disjE) (simp_all add: days_before_month_def days_in_month_def)
qed

lemma days_before_month_mono:
  assumes "1 \<le> m" "m \<le> n" "n \<le> 12"
  shows "days_before_month y m \<le> days_before_month y n"
proof -
  have "days_before_month y m \<le> days_before_month y (m + int k)" if "m + int k \<le> 12" for k
    using that
  proof (induction k)
    case 0
    then show ?case by simp
  next
    case (Suc k)
    have e: "m + int (Suc k) = (m + int k) + 1" by simp
    have "days_before_month y ((m + int k) + 1) = days_before_month y (m + int k) + days_in_month y (m + int k)"
      using assms(1) Suc.prems by (intro days_before_month_step) simp_all
    moreover have "days_before_month y m \<le> days_before_month y (m + int k)"
      using Suc by simp
    ultimately show ?case unfolding e using dim_ge28[of y "m + int k"] by linarith
  qed
  from this[of "nat (n - m)"] show ?thesis using assms by simp
qed

lemma div_step:
  assumes "0 < (k::int)"
  shows "y div k = (y - 1) div k + (if y mod k = 0 then 1 else 0)"
proof (cases "y mod k = 0")
  case True
  have "k * (y div k) + y mod k = y" by (rule mult_div_mod_eq)
  then have "y = k * (y div k)" using True by simp
  then have "y - 1 = k * (y div k - 1) + (k - 1)" by (simp add: algebra_simps)
  then have "(y - 1) div k = y div k - 1"
    using assms by (intro int_div_pos_eq[where r = "k - 1"]) simp_all
  then show ?thesis using True by simp
next
  case False
  have "0 \<le> y mod k" using assms by (rule pos_mod_sign)
  then have r: "0 < y mod k" using False by simp
  have r2: "y mod k < k" using assms by (rule pos_mod_bound)
  have "y - 1 = k * (y div k) + (y mod k - 1)" by simp
  then have "(y - 1) div k = y div k"
    using assms r r2 by (intro int_div_pos_eq[where r = "y mod k - 1"]) simp_all
  then show ?thesis using False by simp
qed

lemma mod_400_100: "(y::int) mod 400 = 0 \<Longrightarrow> y mod 100 = 0" 
  using mod_mod_cancel[of 100 400 y] by simp
lemma mod_100_4: "(y::int) mod 100 = 0 \<Longrightarrow> y mod 4 = 0"
  using mod_mod_cancel[of 4 100 y] by simp

lemma leap_indicator:
  fixes p4 p100 p400 :: bool
  assumes "p400 \<Longrightarrow> p100" "p100 \<Longrightarrow> p4"
  shows "(if p4 then 1 else 0) - (if p100 then 1 else 0) + (if p400 then 1 else (0::int))
     = (if p4 \<and> (\<not> p100 \<or> p400) then 1 else 0)"
  using assms by (cases p4; cases p100; cases p400) simp_all

lemma days_before_year_step:
  "days_before_year (y + 1) = days_before_year y + (if is_leap y then 366 else 365)"
proof -
  define i4 :: int where "i4 = (if y mod 4 = 0 then 1 else 0)"
  define i100 :: int where "i100 = (if y mod 100 = 0 then 1 else 0)"
  define i400 :: int where "i400 = (if y mod 400 = 0 then 1 else 0)"
  define q4 where "q4 = (y - 1) div 4"
  define q100 where "q100 = (y - 1) div 100"
  define q400 where "q400 = (y - 1) div 400"
  define s where "s = i4 - i100 + i400"
  have d4: "y div 4 = q4 + i4" unfolding i4_def q4_def by (rule div_step) simp
  have d100: "y div 100 = q100 + i100" unfolding i100_def q100_def by (rule div_step) simp
  have d400: "y div 400 = q400 + i400" unfolding i400_def q400_def by (rule div_step) simp
  have i: "s = (if is_leap y then 1 else 0)"
    unfolding s_def i4_def i100_def i400_def is_leap_def
    by (rule leap_indicator) (rule mod_400_100, assumption, rule mod_100_4, assumption)
  have l: "days_before_year (y + 1) = y * 365 + y div 4 - y div 100 + y div 400"
    unfolding days_before_year_def by simp
  have r: "days_before_year y = (y - 1) * 365 + q4 - q100 + q400"
    unfolding days_before_year_def q4_def q100_def q400_def by (rule refl)
  have "days_before_year (y + 1) = days_before_year y + 365 + s"
    unfolding l r d4 d100 d400 s_def by (simp add: algebra_simps)
  then show ?thesis unfolding i by simp
qed

lemma days_before_year_mono:
  assumes "y \<le> z"
  shows "days_before_year y \<le> days_before_year z"
proof -
  have "days_before_year y \<le> days_before_year (y + int k)" for k
  proof (induction k)
    case 0
    then show ?case by simp
  next
    case (Suc k)
    have e: "y + int (Suc k) = (y + int k) + 1" by simp
    show ?case unfolding e days_before_year_step using Suc by (simp split: if_splits)
  qed
  from this[of "nat (z - y)"] show ?thesis using assms by simp
qed

lemma days_before_month_nonneg: "1 \<le> m \<Longrightarrow> m \<le> 12 \<Longrightarrow> 0 \<le> days_before_month y m"
  using days_before_month_mono[of 1 m y] by (simp add: days_before_month_def)

lemma toordinal_month_bound:
  assumes "valid_date a"
  shows "days_before_month (year a) (month a) + day a \<le> days_before_month (year a) 12 + 31"
proof (cases "month a = 12")
  case True
  then show ?thesis using assms dim_le31[of "year a" 12] by (simp add: valid_date_def)
next
  case False
  then have m: "1 \<le> month a" "month a \<le> 11" using assms by (simp_all add: valid_date_def)
  have "days_before_month (year a) (month a) + day a \<le> days_before_month (year a) (month a + 1)"
    using assms m by (simp add: days_before_month_step valid_date_def)
  also have "\<dots> \<le> days_before_month (year a) 12"
    using m by (intro days_before_month_mono) simp_all
  finally show ?thesis by simp
qed

lemma toordinal_strict_mono:
  assumes a: "valid_date a" and b: "valid_date b" and l: "date_less a b"
  shows "toordinal a < toordinal b"
proof -
  have mb: "1 \<le> month b" "month b \<le> 12" "1 \<le> day b" using b by (simp_all add: valid_date_def)
  have ma: "1 \<le> month a" "month a \<le> 12" "day a \<le> days_in_month (year a) (month a)"
    using a by (simp_all add: valid_date_def)
  consider (y) "year a < year b" | (m) "year a = year b" "month a < month b"
    | (d) "year a = year b" "month a = month b" "day a < day b"
    using l by (auto simp add: date_less_def)
  then show ?thesis
  proof cases
    case y
    have "toordinal a \<le> days_before_year (year a) + (days_before_month (year a) 12 + 31)"
      using toordinal_month_bound[OF a] by (simp add: toordinal_def)
    also have "\<dots> = days_before_year (year a + 1)"
      by (simp add: days_before_year_step days_before_month_def)
    also have "\<dots> \<le> days_before_year (year b)"
      using y by (intro days_before_year_mono) simp
    also have "\<dots> < toordinal b"
      using mb days_before_month_nonneg[of "month b" "year b"] by (simp add: toordinal_def)
    finally show ?thesis .
  next
    case m
    have "days_before_month (year a) (month a) + day a \<le> days_before_month (year a) (month a + 1)"
      using ma m mb by (simp add: days_before_month_step)
    also have "\<dots> \<le> days_before_month (year a) (month b)"
      using ma m mb by (intro days_before_month_mono) simp_all
    finally show ?thesis using mb m by (simp add: toordinal_def)
  next
    case d
    then show ?thesis by (simp add: toordinal_def)
  qed
qed

lemma toordinal_pos: "valid_date d \<Longrightarrow> 1 \<le> toordinal d"
proof -
  assume v: "valid_date d"
  have "days_before_year 1 \<le> days_before_year (year d)"
    using v by (intro days_before_year_mono) (simp add: valid_date_def)
  moreover have "0 \<le> days_before_month (year d) (month d)"
    using v by (intro days_before_month_nonneg) (simp_all add: valid_date_def)
  ultimately show ?thesis using v by (simp add: toordinal_def valid_date_def days_before_year_def)
qed

lemma toordinal_bound: "valid_date d \<Longrightarrow> toordinal d \<le> 3652060"
proof -
  assume v: "valid_date d"
  have "days_before_year (year d) \<le> days_before_year 9999"
    using v by (intro days_before_year_mono) (simp add: valid_date_def)
  moreover have "days_before_year 9999 = 3651694" by (simp add: days_before_year_def)
  moreover have "days_before_month (year d) (month d) + day d \<le> days_before_month (year d) 12 + 31"
    using v by (rule toordinal_month_bound)
  moreover have "days_before_month (year d) 12 \<le> 335" by (simp add: days_before_month_def)
  ultimately show ?thesis unfolding toordinal_def by linarith
qed

lemma toordinal_mono:
  assumes "valid_date a" "valid_date b" "date_le a b"
  shows "toordinal a \<le> toordinal b"
proof (cases "date_less a b")
  case True
  then show ?thesis using assms toordinal_strict_mono[of a b] by simp
next
  case False
  then show ?thesis using assms(3) by (simp add: date_le_def toordinal_def)
qed

lemma next_day_greater: "valid_date d \<Longrightarrow> date_less d (next_day d)"
  by (simp add: next_day_def date_less_def valid_date_def)

lemma plus_one_day_greater:
  assumes "valid_date d" "plus_timedelta d 1 = Inr r"
  shows "date_less d r"
  using assms next_day_greater[of d] by (simp add: plus_timedelta_def Let_def split: if_splits)

lemma plus_months_greater:
  assumes "valid_date d" "plus_relativedelta d 0 ms = Inr r" "1 \<le> ms" "ms \<le> 12"
  shows "date_less d r"
proof -
  define m0 where "m0 = month d + ms"
  have r: "year r = (if 12 < m0 then year d + 1 else year d)"
          "month r = (if 12 < m0 then m0 - 12 else m0)"
    using assms(1,2,3) mk_datetime_valid[of _ _ _ r]
    by (auto simp add: plus_relativedelta_def Let_def m0_def valid_date_def split: if_splits)
  show ?thesis using r assms(3) by (auto simp add: date_less_def m0_def split: if_splits)
qed

lemma plus_year_greater:
  assumes "plus_relativedelta d 1 0 = Inr r"
  shows "date_less d r"
proof -
  have "year r = year d + 1"
    using assms mk_datetime_valid[of _ _ _ r] by (auto simp add: plus_relativedelta_def Let_def)
  then show ?thesis by (simp add: date_less_def)
qed

lemma get_next_period_end_greater:
  assumes "valid_date d" "get_next_period_end d f = Inr r"
  shows "date_less d r"
proof (cases f)
  case Daily
  then show ?thesis using assms by (simp add: plus_one_day_greater)
next
  case Monthly
  then show ?thesis using assms plus_months_greater[of d 1 r] by simp
next
  case Quarterly
  then show ?thesis using assms plus_months_greater[of d 3 r] by simp
next
  case Annually
  then show ?thesis using assms plus_year_greater[of d r] by simp
qed

text \<open>The quantity that decreases along the loop: the days left up to the last day
  a \<open>datetime\<close> can hold.\<close>

definition days_left :: "datetime \<Rightarrow> nat" where
  "days_left d = (if valid_date d then nat (3652061 - toordinal d) else 3652061)"

lemma loop_step_decreases:
  assumes pe: "get_period_end_date cur f = Inr pe"
    and nb: "\<not> date_le e (if date_less e pe then e else pe)"
    and nx: "get_next_period_end (if date_less e pe then e else pe) f = Inr nxt"
  shows "days_left nxt < days_left cur"
proof -
  have ne: "\<not> date_less e pe" using nb by (auto simp add: date_le_def)
  then have nx': "get_next_period_end pe f = Inr nxt" using nx by simp
  have vn: "valid_date nxt" using nx' by (rule get_next_period_end_valid)
  have n1: "1 \<le> toordinal nxt" using vn by (rule toordinal_pos)
  have n2: "toordinal nxt \<le> 3652060" using vn by (rule toordinal_bound)
  show ?thesis
  proof (cases "valid_date cur")
    case True
    then have vp: "valid_date pe" "date_le cur pe"
      using get_period_end_date_valid[OF True pe] by simp_all
    have "toordinal cur \<le> toordinal pe" using True vp by (intro toordinal_mono)
    moreover have "toordinal pe < toordinal nxt"
      using vp(1) vn get_next_period_end_greater[OF vp(1) nx'] by (intro toordinal_strict_mono)
    ultimately show ?thesis using True vn n2 by (simp add: days_left_def)
  next
    case False
    then show ?thesis using vn n1 by (simp add: days_left_def)
  qed
qed

section \<open>Tables and the file system\<close>

text \<open>
  A table (a pandas \<open>DataFrame\<close>) has named columns and ordered rows; a row holds one
  cell per column.  Cells read from a file are text; the scratch column that the filter
  adds holds parsed stamps (\<open>NaT\<close> for a missing date).
\<close>

datatype cell = Str string | Stamp datetime | NaT

type_synonym row = "(string \<times> cell) list"

record dataframe =
  columns :: "string list"
  rows :: "row list"

text \<open>
  Paths are taken relative to \<open>DATASETS_DIR\<close>, one string per component.  The file
  system is the list of the folders that exist and the files with their contents.  Calls
  of the operating system are taken to succeed on it: no folder path is occupied by a
  regular file, and permissions are not modelled.
\<close>

type_synonym path = "string list"

datatype content = Csv dataframe | Blob string

record fsys =
  dirs :: "path list"
  files :: "(path \<times> content) list"

definition path_exists :: "fsys \<Rightarrow> path \<Rightarrow> bool" where
  "path_exists fs p = (p \<in> set (dirs fs) \<or> map_of (files fs) p \<noteq> None)"

text \<open>\<open>os.makedirs(p)\<close> creates \<open>p\<close> and the folders above it that are missing.\<close>

definition makedirs :: "path \<Rightarrow> fsys \<Rightarrow> fsys" where
  "makedirs p fs =
     fs\<lparr>dirs := dirs fs @
        filter (\<lambda>q. q \<notin> set (dirs fs)) (map (\<lambda>n. take n p) [1..<Suc (length p)])\<rparr>"

section \<open>Folder names\<close>

text \<open>
  \<open>strftime('%Y-%m-%d')\<close>, with the year written on four digits (what every platform
  prints from the year 1000 on).
\<close>

definition digit_char :: "nat \<Rightarrow> char" where
  "digit_char n = ''0123456789'' ! (n mod 10)"

definition two_digits :: "nat \<Rightarrow> string" where
  "two_digits n = [digit_char (n div 10), digit_char n]"

definition four_digits :: "nat \<Rightarrow> string" where
  "four_digits n = [digit_char (n div 1000), digit_char (n div 100), digit_char (n div 10), digit_char n]"

definition strftime_ymd :: "datetime \<Rightarrow> string" where
  "strftime_ymd d =
     four_digits (nat (year d)) @ ''-'' @ two_digits (nat (month d)) @ ''-'' @ two_digits (nat (day d))"

section \<open>The period sequencer\<close>

text \<open>
  The body of the loop of \<open>create_folder_structure\<close> that creates the folder of a period
  and its three subfolders, each only when it does not exist yet.
\<close>

definition make_period_dirs :: "string \<Rightarrow> fsys \<Rightarrow> fsys" where
  "make_period_dirs folder_name fs =
     (let fs1 = (if \<not> path_exists fs [folder_name] then makedirs [folder_name] fs else fs)
      in fold (\<lambda>subfolder fs'.
                 if \<not> path_exists fs' [folder_name, subfolder]
                 then makedirs [folder_name, subfolder] fs' else fs')
           [''context_data'', ''perf'', ''portfolio''] fs1)"

function folder_loop ::
  "frequency \<Rightarrow> datetime \<Rightarrow> datetime \<Rightarrow> string list \<Rightarrow> fsys \<Rightarrow> (error + string list) \<times> fsys"
where
  "folder_loop frequency end_date current_date folders_to_process fs =
     (if date_le current_date end_date then
        (case get_period_end_date current_date frequency of
           Inl e \<Rightarrow> (Inl e, fs)
         | Inr pe \<Rightarrow>
             (let period_end = (if date_less end_date pe then end_date else pe);
                  folder_name = strftime_ymd period_end;
                  folders = folders_to_process @ [folder_name];
                  fs' = make_period_dirs folder_name fs
              in if date_le end_date period_end then (Inr folders, fs')
                 else (case get_next_period_end period_end frequency of
                         Inl e \<Rightarrow> (Inl e, fs')
                       | Inr nxt \<Rightarrow> folder_loop frequency end_date nxt folders fs')))
      else (Inr folders_to_process, fs))"
  by pat_completeness auto
termination
proof (relation "measure (\<lambda>(f, e, cur, acc, fs). days_left cur)")
  show "wf (measure (\<lambda>(f, e, cur, acc, fs). days_left cur))" by simp
next
  fix frequency :: frequency and end_date current_date :: datetime
    and folders_to_process :: "string list" and fs :: fsys
    and pe period_end :: datetime and folder_name :: string and folders :: "string list"
    and fs' :: fsys and nxt :: datetime
  assume "get_period_end_date current_date frequency = Inr pe"
    and "period_end = (if date_less end_date pe then end_date else pe)"
    and "\<not> date_le end_date period_end"
    and "get_next_period_end period_end frequency = Inr nxt"
  then have "days_left nxt < days_left current_date"
    using loop_step_decreases[of current_date frequency pe end_date nxt] by simp
  then show "((frequency, end_date, nxt, folders, fs'), frequency, end_date, current_date, folders_to_process, fs)
      \<in> measure (\<lambda>(f, e, cur, acc, fs). days_left cur)"
    by simp
qed

definition create_folder_structure ::
  "datetime \<Rightarrow> datetime \<Rightarrow> frequency \<Rightarrow> fsys \<Rightarrow> (error + string list) \<times> fsys" where
  "create_folder_structure inception_date end_date frequency fs =
     folder_loop frequency end_date inception_date [] fs"

text \<open>
  The same loop without the folder tree: the period end dates it emits, in order, and the
  exception that ended it, if one did.
\<close>

function period_ends :: "frequency \<Rightarrow> datetime \<Rightarrow> datetime \<Rightarrow> datetime list \<times> error option" where
  "period_ends frequency end_date current_date =
     (if date_le current_date end_date then
        (case get_period_end_date current_date frequency of
           Inl e \<Rightarrow> ([], Some e)
         | Inr pe \<Rightarrow>
             (let period_end = (if date_less end_date pe then end_date else pe)
              in if date_le end_date period_end then ([period_end], None)
                 else (case get_next_period_end period_end frequency of
                         Inl e \<Rightarrow> ([period_end], Some e)
                       | Inr nxt \<Rightarrow> apfst ((#) period_end) (period_ends frequency end_date nxt))))
      else ([], None))"
  by pat_completeness auto
termination
proof (relation "measure (\<lambda>(f, e, cur). days_left cur)")
  show "wf (measure (\<lambda>(f, e, cur). days_left cur))" by simp
next
  fix frequency :: frequency and end_date current_date pe period_end nxt :: datetime
  assume "get_period_end_date current_date frequency = Inr pe"
    and "period_end = (if date_less end_date pe then end_date else pe)"
    and "\<not> date_le end_date period_end"
    and "get_next_period_end period_end frequency = Inr nxt"
  then have "days_left nxt < days_left current_date"
    using loop_step_decreases[of current_date frequency pe end_date nxt] by simp
  then show "((frequency, end_date, nxt), frequency, end_date, current_date)
      \<in> measure (\<lambda>(f, e, cur). days_left cur)"
    by simp
qed


declare folder_loop.simps [simp del]
declare period_ends.simps [simp del]

section \<open>Facts about the order of dates\<close>

lemma date_less_irrefl: "\<not> date_less d d"
  by (simp add: date_less_def)

lemma date_less_trans: "date_less a b \<Longrightarrow> date_less b c \<Longrightarrow> date_less a c"
  by (auto simp add: date_less_def)


lemma date_less_le_trans: "date_less a b \<Longrightarrow> date_le b c \<Longrightarrow> date_less a c"
  by (auto simp add: date_le_def date_less_def)

lemma date_le_trans: "date_le a b \<Longrightarrow> date_le b c \<Longrightarrow> date_le a c"
  by (auto simp add: date_le_def date_less_def)

lemma date_le_total: "date_le a b \<or> date_less b a"
  by (auto simp add: date_le_def date_less_def)

lemma date_not_le: "\<not> date_le a b \<Longrightarrow> date_less b a"
  using date_le_total[of a b] by simp

lemma date_le_antisym: "date_le a b \<Longrightarrow> \<not> date_less a b \<Longrightarrow> (b :: datetime) = a"
  by (simp add: date_le_def)

section \<open>The loop of the sequencer\<close>

lemma folder_loop_period_ends:
  "folder_loop f e cur acc fs =
     ((case snd (period_ends f e cur) of
         None \<Rightarrow> Inr (acc @ map strftime_ymd (fst (period_ends f e cur)))
       | Some err \<Rightarrow> Inl err),
      fold make_period_dirs (map strftime_ymd (fst (period_ends f e cur))) fs)"
proof (induction f e cur acc fs rule: folder_loop.induct)
  case (1 f e cur acc fs)
  show ?case
  proof (cases "date_le cur e")
    case False
    then show ?thesis by (simp add: folder_loop.simps[of f e cur] period_ends.simps[of f e cur])
  next
    case le: True
    show ?thesis
    proof (cases "get_period_end_date cur f")
      case (Inl err)
      then show ?thesis using le
        by (simp add: folder_loop.simps[of f e cur] period_ends.simps[of f e cur])
    next
      case (Inr pe)
      define period_end where "period_end = (if date_less e pe then e else pe)"
      show ?thesis
      proof (cases "date_le e period_end")
        case True
        then show ?thesis using le Inr
          by (simp add: folder_loop.simps[of f e cur] period_ends.simps[of f e cur] period_end_def Let_def)
      next
        case nb: False
        show ?thesis
        proof (cases "get_next_period_end period_end f")
          case (Inl err)
          then show ?thesis using le Inr nb
            by (simp add: folder_loop.simps[of f e cur] period_ends.simps[of f e cur] period_end_def Let_def)
        next
          case nx: (Inr nxt)
          have IH: "folder_loop f e nxt (acc @ [strftime_ymd period_end]) (make_period_dirs (strftime_ymd period_end) fs) =
            ((case snd (period_ends f e nxt) of
               None \<Rightarrow> Inr ((acc @ [strftime_ymd period_end]) @ map strftime_ymd (fst (period_ends f e nxt)))
             | Some err \<Rightarrow> Inl err),
             fold make_period_dirs (map strftime_ymd (fst (period_ends f e nxt))) (make_period_dirs (strftime_ymd period_end) fs))"
            using "1.IH"[OF le Inr period_end_def refl refl refl nb nx] .
          have l: "folder_loop f e cur acc fs =
             folder_loop f e nxt (acc @ [strftime_ymd period_end]) (make_period_dirs (strftime_ymd period_end) fs)"
            using le Inr nb nx by (simp add: folder_loop.simps[of f e cur] period_end_def Let_def)
          have r: "period_ends f e cur = apfst ((#) period_end) (period_ends f e nxt)"
            using le Inr nb nx by (simp add: period_ends.simps[of f e cur] period_end_def Let_def)
          show ?thesis unfolding l IH r by (simp split: option.splits)
        qed
      qed
    qed
  qed
qed

lemma date_less_imp_le: "date_less a b \<Longrightarrow> date_le a b"
  by (simp add: date_le_def)

lemma period_ends_exit: "\<not> date_le cur e \<Longrightarrow> period_ends f e cur = ([], None)"
  by (simp add: period_ends.simps[of f e cur])

lemma period_ends_raise:
  "date_le cur e \<Longrightarrow> get_period_end_date cur f = Inl err \<Longrightarrow> period_ends f e cur = ([], Some err)"
  by (simp add: period_ends.simps[of f e cur])

lemma period_ends_last:
  "date_le cur e \<Longrightarrow> get_period_end_date cur f = Inr pe \<Longrightarrow>
   date_le e (if date_less e pe then e else pe) \<Longrightarrow>
   period_ends f e cur = ([if date_less e pe then e else pe], None)"
  by (simp add: period_ends.simps[of f e cur] Let_def)

lemma not_clamped: "\<not> date_le e (if date_less e pe then e else pe) \<Longrightarrow> \<not> date_less e pe"
  by (auto simp add: date_le_def)

lemma period_ends_raise_next:
  "date_le cur e \<Longrightarrow> get_period_end_date cur f = Inr pe \<Longrightarrow> \<not> date_le e pe \<Longrightarrow>
   get_next_period_end pe f = Inl err \<Longrightarrow> period_ends f e cur = ([pe], Some err)"
  using date_less_imp_le[of e pe] by (auto simp add: period_ends.simps[of f e cur] Let_def)

lemma period_ends_step:
  "date_le cur e \<Longrightarrow> get_period_end_date cur f = Inr pe \<Longrightarrow> \<not> date_le e pe \<Longrightarrow>
   get_next_period_end pe f = Inr nxt \<Longrightarrow>
   period_ends f e cur = apfst ((#) pe) (period_ends f e nxt)"
  using date_less_imp_le[of e pe] by (auto simp add: period_ends.simps[of f e cur] Let_def)

text \<open>The five ways through one iteration, as a case rule.\<close>

lemma period_ends_cases [case_names exit raise last raise_next step]:
  assumes "\<not> date_le cur e \<Longrightarrow> period_ends f e cur = ([], None) \<Longrightarrow> P"
    and "\<And>err. date_le cur e \<Longrightarrow> get_period_end_date cur f = Inl err \<Longrightarrow>
           period_ends f e cur = ([], Some err) \<Longrightarrow> P"
    and "\<And>pe. date_le cur e \<Longrightarrow> get_period_end_date cur f = Inr pe \<Longrightarrow>
           date_le e (if date_less e pe then e else pe) \<Longrightarrow>
           period_ends f e cur = ([if date_less e pe then e else pe], None) \<Longrightarrow> P"
    and "\<And>pe err. date_le cur e \<Longrightarrow> get_period_end_date cur f = Inr pe \<Longrightarrow> \<not> date_le e pe \<Longrightarrow>
           get_next_period_end pe f = Inl err \<Longrightarrow> period_ends f e cur = ([pe], Some err) \<Longrightarrow> P"
    and "\<And>pe nxt. date_le cur e \<Longrightarrow> get_period_end_date cur f = Inr pe \<Longrightarrow> \<not> date_le e pe \<Longrightarrow>
           get_next_period_end pe f = Inr nxt \<Longrightarrow>
           period_ends f e cur = apfst ((#) pe) (period_ends f e nxt) \<Longrightarrow> P"
  shows P
proof (cases "date_le cur e")
  case False
  then show ?thesis using assms(1) period_ends_exit by blast
next
  case le: True
  show ?thesis
  proof (cases "get_period_end_date cur f")
    case (Inl err)
    then show ?thesis using le assms(2) period_ends_raise by blast
  next
    case (Inr pe)
    show ?thesis
    proof (cases "date_le e (if date_less e pe then e else pe)")
      case True
      then show ?thesis using le Inr assms(3) period_ends_last by blast
    next
      case False
      then have nl: "\<not> date_less e pe" by (rule not_clamped)
      then have nb: "\<not> date_le e pe" using False by simp
      show ?thesis
      proof (cases "get_next_period_end pe f")
        case (Inl err)
        then show ?thesis using le Inr nb assms(4) period_ends_raise_next by blast
      next
        case nx: (Inr nxt)
        then show ?thesis using le Inr nb assms(5) period_ends_step by blast
      qed
    qed
  qed
qed

lemma period_ends_induct [consumes 1, case_names exit raise last raise_next step]:
  assumes v: "valid_date cur"
    and "\<And>cur. valid_date cur \<Longrightarrow> \<not> date_le cur e \<Longrightarrow> period_ends f e cur = ([], None) \<Longrightarrow> P cur"
    and "\<And>cur err. valid_date cur \<Longrightarrow> date_le cur e \<Longrightarrow> get_period_end_date cur f = Inl err \<Longrightarrow>
           period_ends f e cur = ([], Some err) \<Longrightarrow> P cur"
    and "\<And>cur pe. valid_date cur \<Longrightarrow> date_le cur e \<Longrightarrow> get_period_end_date cur f = Inr pe \<Longrightarrow>
           valid_date pe \<Longrightarrow> date_le cur pe \<Longrightarrow>
           date_le e (if date_less e pe then e else pe) \<Longrightarrow>
           period_ends f e cur = ([if date_less e pe then e else pe], None) \<Longrightarrow> P cur"
    and "\<And>cur pe err. valid_date cur \<Longrightarrow> date_le cur e \<Longrightarrow> get_period_end_date cur f = Inr pe \<Longrightarrow>
           valid_date pe \<Longrightarrow> date_le cur pe \<Longrightarrow> date_less pe e \<Longrightarrow>
           get_next_period_end pe f = Inl err \<Longrightarrow> period_ends f e cur = ([pe], Some err) \<Longrightarrow> P cur"
    and "\<And>cur pe nxt. valid_date cur \<Longrightarrow> date_le cur e \<Longrightarrow> get_period_end_date cur f = Inr pe \<Longrightarrow>
           valid_date pe \<Longrightarrow> date_le cur pe \<Longrightarrow> date_less pe e \<Longrightarrow>
           get_next_period_end pe f = Inr nxt \<Longrightarrow> valid_date nxt \<Longrightarrow> date_less pe nxt \<Longrightarrow>
           period_ends f e cur = apfst ((#) pe) (period_ends f e nxt) \<Longrightarrow> P nxt \<Longrightarrow> P cur"
  shows "P cur"
  using v
proof (induction "days_left cur" arbitrary: cur rule: less_induct)
  case less
  note v = \<open>valid_date cur\<close>
  show ?case
  proof (cases f e cur rule: period_ends_cases)
    case exit
    then show ?thesis using assms(2) v by blast
  next
    case (raise err)
    then show ?thesis using assms(3) v by blast
  next
    case (last pe)
    then show ?thesis using assms(4)[OF v] get_period_end_date_valid[OF v] by blast
  next
    case (raise_next pe err)
    then show ?thesis using assms(5)[OF v] get_period_end_date_valid[OF v] date_not_le by blast
  next
    case (step pe nxt)
    have pv: "valid_date pe" "date_le cur pe"
      using get_period_end_date_valid[OF v step(2)] by simp_all
    have nv: "valid_date nxt" using step(4) by (rule get_next_period_end_valid)
    have gt: "date_less pe nxt" using pv(1) step(4) by (rule get_next_period_end_greater)
    have "days_left nxt < days_left cur"
      using loop_step_decreases[of cur f pe e nxt] step by (auto simp add: date_le_def)
    then have "P nxt" using less nv by blast
    then show ?thesis
      using assms(6)[OF v step(1,2) pv date_not_le[OF step(3)] step(4) nv gt step(5)] by blast
  qed
qed

lemma period_ends_bounds:
  assumes "valid_date cur"
  shows "\<forall>x \<in> set (fst (period_ends f e cur)). date_le cur x \<and> date_le x e"
  using assms
proof (induction rule: period_ends_induct[where f = f and e = e])
  case (exit cur)
  then show ?case by simp
next
  case (raise cur err)
  then show ?case by simp
next
  case (last cur pe)
  then show ?case using date_le_total[of pe e] by (auto simp add: date_le_refl)
next
  case (raise_next cur pe err)
  then show ?case by (simp add: date_less_imp_le)
next
  case (step cur pe nxt)
  have "date_le cur x" if "date_le nxt x" for x
    using that step(5,9) date_le_trans date_less_imp_le by blast
  then show ?case using step by (auto simp add: date_less_imp_le)
qed

lemma period_ends_sorted:
  assumes "valid_date cur"
  shows "sorted_wrt date_less (fst (period_ends f e cur))"
  using assms
proof (induction rule: period_ends_induct[where f = f and e = e])
  case (step cur pe nxt)
  have "date_less pe x" if "x \<in> set (fst (period_ends f e nxt))" for x
    using that period_ends_bounds[OF step(8), of f e] step(9) date_less_le_trans by blast
  then show ?case using step by simp
qed simp_all

lemma sorted_wrt_date_less_distinct: "sorted_wrt date_less ds \<Longrightarrow> distinct ds"
  by (induction ds) (auto simp add: date_less_irrefl)

lemma period_ends_first:
  assumes "date_le cur e" "get_period_end_date cur f = Inr pe"
  shows "fst (period_ends f e cur) \<noteq> [] \<and>
         hd (fst (period_ends f e cur)) = (if date_less e pe then e else pe)"
proof (cases f e cur rule: period_ends_cases)
  case (last pe')
  then show ?thesis using assms by simp
next
  case (raise_next pe' err)
  then show ?thesis using assms by (auto simp add: date_le_def)
next
  case (step pe' nxt)
  then show ?thesis using assms by (auto simp add: date_le_def)
qed (use assms in simp_all)

lemma period_ends_same_day:
  assumes "valid_date d" "get_period_end_date d f = Inr pe"
  shows "period_ends f d d = ([d], None)"
proof -
  have le: "date_le d pe" using get_period_end_date_valid[OF assms] by simp
  have c: "(if date_less d pe then d else pe) = d"
    using date_le_antisym[OF le] by auto
  have "period_ends f d d = ([if date_less d pe then d else pe], None)"
    using assms(2) by (intro period_ends_last) (simp_all add: date_le_refl c)
  then show ?thesis by (simp only: c)
qed


text \<open>
  The last month of the calendar of \<open>datetime\<close>: the month whose end the monthly
  computation cannot reach, because it passes through the month after.
\<close>

definition in_december_9999 :: "datetime \<Rightarrow> bool" where
  "in_december_9999 d = (year d = 9999 \<and> month d = 12)"

lemma get_period_end_date_returns:
  assumes "valid_date d" "\<not> (f = Monthly \<and> in_december_9999 d)"
  shows "\<exists>pe. get_period_end_date d f = Inr pe"
proof (cases f)
  case Daily
  then show ?thesis by simp
next
  case Monthly
  then show ?thesis using assms month_end[of d] by (simp add: in_december_9999_def del: get_period_end_date.simps)
next
  case Quarterly
  then show ?thesis using assms quarter_end[of d] by (simp del: get_period_end_date.simps)
next
  case Annually
  then show ?thesis using assms year_end[of d] by (simp del: get_period_end_date.simps)
qed

lemma before_december_9999:
  assumes "valid_date e" "date_le cur e" "\<not> in_december_9999 e"
  shows "\<not> in_december_9999 cur"
  using assms by (auto simp add: in_december_9999_def valid_date_def date_le_def date_less_def)

lemma last_day_is_greatest:
  assumes "valid_date e" "year d = 9999" "month d = 12" "day d = 31"
  shows "\<not> date_less d e"
  using assms dim_le31[of "year e" "month e"] by (auto simp add: valid_date_def date_less_def)

lemma next_day_valid:
  assumes "valid_date d" "\<not> (year d = 9999 \<and> month d = 12 \<and> day d = 31)"
  shows "valid_date (next_day d)"
proof -
  have 1: "1 \<le> days_in_month y m" for y m using dim_ge28[of y m] by simp
  have "month d = 12 \<Longrightarrow> days_in_month (year d) (month d) = 31" by (simp add: days_in_month_def)
  then show ?thesis using assms 1 by (auto simp add: next_day_def valid_date_def)
qed

lemma plus_one_day_returns:
  assumes "valid_date d" "valid_date e" "date_less d e"
  shows "\<exists>r. plus_timedelta d 1 = Inr r"
proof -
  have "\<not> (year d = 9999 \<and> month d = 12 \<and> day d = 31)"
    using last_day_is_greatest[OF assms(2), of d] assms(3) by blast
  then have "valid_date (next_day d)" using assms(1) by (intro next_day_valid)
  then show ?thesis by (simp add: plus_timedelta_def)
qed

lemma plus_relativedelta_returns:
  assumes "valid_date d" "0 \<le> ms" "ms \<le> 12" "0 \<le> ys"
    and "year d + ys + (if 12 < month d + ms then 1 else 0) \<le> 9999"
  shows "\<exists>r. plus_relativedelta d ys ms = Inr r"
proof -
  have 1: "1 \<le> days_in_month y m" for y m using dim_ge28[of y m] by simp
  show ?thesis using assms 1
    by (auto simp add: plus_relativedelta_def mk_datetime_def Let_def valid_date_def)
qed

lemma period_end_shape:
  assumes "valid_date d" "get_period_end_date d f = Inr pe" "f \<noteq> Daily"
  shows "month pe \<le> 11 \<or> (month pe = 12 \<and> day pe = 31)"
proof (cases f)
  case Daily
  then show ?thesis using assms by simp
next
  case Monthly
  show ?thesis
  proof (cases "year d = 9999 \<and> month d = 12")
    case True
    then have "get_period_end_date d Monthly = Inl OverflowError"
      using assms(1) by (intro month_end_overflow) simp_all
    then show ?thesis using assms(2) Monthly by (simp del: get_period_end_date.simps)
  next
    case False
    then have "pe = \<lparr>year = year d, month = month d, day = days_in_month (year d) (month d)\<rparr>"
      using assms Monthly month_end[of d] by (simp del: get_period_end_date.simps)
    then show ?thesis using assms(1) by (auto simp add: valid_date_def days_in_month_def)
  qed
next
  case Quarterly
  have "(month d - 1) div 3 + 1 \<le> 4" using assms(1) unfolding valid_date_def by presburger
  then show ?thesis
    using assms Quarterly quarter_end[of d] by (auto simp del: get_period_end_date.simps)
next
  case Annually
  then show ?thesis using assms year_end[of d] by (auto simp del: get_period_end_date.simps)
qed

lemma get_next_period_end_returns:
  assumes d: "valid_date d" and pe: "get_period_end_date d f = Inr pe"
    and e: "valid_date e" and l: "date_less pe e"
  shows "\<exists>nxt. get_next_period_end pe f = Inr nxt"
proof (cases "f = Daily")
  case True
  then show ?thesis using assms plus_one_day_returns[of pe e] by simp
next
  case False
  have v: "valid_date pe" using get_period_end_date_valid[OF d pe] by simp
  have s: "month pe \<le> 11 \<or> (month pe = 12 \<and> day pe = 31)"
    using d pe False by (rule period_end_shape)
  have y: "year pe < 9999" if m: "month pe = 12"
  proof -
    have "day pe = 31" using s m by simp
    then have "year pe \<noteq> 9999" using last_day_is_greatest[OF e, of pe] l m by blast
    then show ?thesis using v by (simp add: valid_date_def)
  qed
  have y': "year pe \<le> 9999" "1 \<le> month pe" "month pe \<le> 12" using v by (simp_all add: valid_date_def)
  show ?thesis
  proof (cases f)
    case Daily
    then show ?thesis using False by simp
  next
    case Monthly
    then show ?thesis using v y y' by (auto intro!: plus_relativedelta_returns)
  next
    case Quarterly
    have "month pe = 3 \<or> month pe = 6 \<or> month pe = 9 \<or> month pe = 12"
    proof -
      have "(month d - 1) div 3 + 1 = 1 \<or> (month d - 1) div 3 + 1 = 2 \<or> (month d - 1) div 3 + 1 = 3 \<or> (month d - 1) div 3 + 1 = 4"
        using d unfolding valid_date_def by presburger
      then show ?thesis using d pe Quarterly quarter_end[of d]
        by (auto simp del: get_period_end_date.simps)
    qed
    then show ?thesis using Quarterly v y y' by (auto intro!: plus_relativedelta_returns)
  next
    case Annually
    then have "month pe = 12" using d pe year_end[of d] by (auto simp del: get_period_end_date.simps)
    then show ?thesis using Annually v y y' by (auto intro!: plus_relativedelta_returns)
  qed
qed

lemma period_ends_no_error:
  assumes "valid_date cur" "valid_date e" "\<not> (f = Monthly \<and> in_december_9999 e)"
  shows "snd (period_ends f e cur) = None"
  using assms(1)
proof (induction rule: period_ends_induct[where f = f and e = e])
  case (raise cur err)
  have "\<not> (f = Monthly \<and> in_december_9999 cur)"
    using before_december_9999[OF assms(2) raise(2)] assms(3) by blast
  then show ?case using get_period_end_date_returns[OF raise(1), of f] raise(3) by simp
next
  case (raise_next cur pe err)
  then show ?case using get_next_period_end_returns[OF raise_next(1,3) assms(2)] by simp
qed simp_all

text \<open>
  The spec's words for the period boundary: the date itself for daily, the last day of
  the month of the date for monthly, Mar 31 / Jun 30 / Sep 30 / Dec 31 of the year of the
  date for quarterly, and December 31 of that year for annually; and what it means for
  two dates to lie in the same period unit.
\<close>

definition last_day_of_period :: "datetime \<Rightarrow> frequency \<Rightarrow> datetime" where
  "last_day_of_period d f =
     (case f of
        Daily \<Rightarrow> d
      | Monthly \<Rightarrow> \<lparr>year = year d, month = month d, day = days_in_month (year d) (month d)\<rparr>
      | Quarterly \<Rightarrow>
          (if month d \<le> 3 then \<lparr>year = year d, month = 3, day = 31\<rparr>
           else if month d \<le> 6 then \<lparr>year = year d, month = 6, day = 30\<rparr>
           else if month d \<le> 9 then \<lparr>year = year d, month = 9, day = 30\<rparr>
           else \<lparr>year = year d, month = 12, day = 31\<rparr>)
      | Annually \<Rightarrow> \<lparr>year = year d, month = 12, day = 31\<rparr>)"

definition same_period :: "frequency \<Rightarrow> datetime \<Rightarrow> datetime \<Rightarrow> bool" where
  "same_period f a b =
     (case f of
        Daily \<Rightarrow> a = b
      | Monthly \<Rightarrow> year a = year b \<and> month a = month b
      | Quarterly \<Rightarrow> year a = year b \<and> (month a - 1) div 3 = (month b - 1) div 3
      | Annually \<Rightarrow> year a = year b)"

lemma get_period_end_date_spec:
  assumes "valid_date d" "\<not> (f = Monthly \<and> in_december_9999 d)"
  shows "get_period_end_date d f = Inr (last_day_of_period d f)"
proof (cases f)
  case Daily
  then show ?thesis by (simp add: last_day_of_period_def)
next
  case Monthly
  then show ?thesis using assms month_end[of d]
    by (simp add: last_day_of_period_def in_december_9999_def del: get_period_end_date.simps)
next
  case Quarterly
  have "(month d \<le> 3 \<and> (month d - 1) div 3 + 1 = 1) \<or> (3 < month d \<and> month d \<le> 6 \<and> (month d - 1) div 3 + 1 = 2)
      \<or> (6 < month d \<and> month d \<le> 9 \<and> (month d - 1) div 3 + 1 = 3) \<or> (9 < month d \<and> (month d - 1) div 3 + 1 = 4)"
    using assms(1) unfolding valid_date_def by presburger
  then show ?thesis using Quarterly assms(1) quarter_end[of d]
    by (auto simp add: last_day_of_period_def simp del: get_period_end_date.simps)
next
  case Annually
  then show ?thesis using assms year_end[of d]
    by (simp add: last_day_of_period_def del: get_period_end_date.simps)
qed

lemma last_day_same_period:
  assumes "valid_date d"
  shows "same_period f d (last_day_of_period d f)"
proof (cases f)
  case Quarterly
  have "(month d \<le> 3 \<and> (month d - 1) div 3 = 0) \<or> (3 < month d \<and> month d \<le> 6 \<and> (month d - 1) div 3 = 1)
      \<or> (6 < month d \<and> month d \<le> 9 \<and> (month d - 1) div 3 = 2) \<or> (9 < month d \<and> (month d - 1) div 3 = 3)"
    using assms(1) unfolding valid_date_def by presburger
  then show ?thesis using Quarterly by (auto simp add: same_period_def last_day_of_period_def)
qed (simp_all add: same_period_def last_day_of_period_def)

lemma day_after_last_day:
  assumes "valid_date d"
  shows "\<not> same_period f d (next_day (last_day_of_period d f))"
proof (cases f)
  case Daily
  have "date_less d (next_day d)" using assms by (rule next_day_greater)
  then have "next_day d \<noteq> d" using date_less_irrefl[of d] by auto
  then show ?thesis using Daily by (auto simp add: same_period_def last_day_of_period_def)
next
  case Monthly
  then show ?thesis using assms
    by (auto simp add: same_period_def last_day_of_period_def next_day_def valid_date_def)
next
  case Quarterly
  have "(month d \<le> 3 \<and> (month d - 1) div 3 = 0) \<or> (3 < month d \<and> month d \<le> 6 \<and> (month d - 1) div 3 = 1)
      \<or> (6 < month d \<and> month d \<le> 9 \<and> (month d - 1) div 3 = 2) \<or> (9 < month d \<and> (month d - 1) div 3 = 3)"
    using assms(1) unfolding valid_date_def by presburger
  then show ?thesis using Quarterly
    by (auto simp add: same_period_def last_day_of_period_def next_day_def days_in_month_def)
next
  case Annually
  then show ?thesis
    by (simp add: same_period_def last_day_of_period_def next_day_def days_in_month_def)
qed

section \<open>Table operations\<close>

text \<open>\<open>df[c]\<close>: the cells of a column, \<open>KeyError\<close> when the table has no such column.\<close>

definition get_column :: "string \<Rightarrow> dataframe \<Rightarrow> error + cell list" where
  "get_column c df =
     (if c \<in> set (columns df)
      then Inr (map (\<lambda>r. case map_of r c of Some v \<Rightarrow> v | None \<Rightarrow> NaT) (rows df))
      else Inl KeyError)"

text \<open>
  \<open>df[c] = values\<close>: an existing column is overwritten in its place, a new one is
  added as the last column.
\<close>

definition set_column :: "string \<Rightarrow> cell list \<Rightarrow> dataframe \<Rightarrow> dataframe" where
  "set_column c vs df =
     \<lparr>columns = (if c \<in> set (columns df) then columns df else columns df @ [c]),
      rows = map (\<lambda>(r, v). AList.update c v r) (zip (rows df) vs)\<rparr>"

text \<open>\<open>df.drop(c, axis=1)\<close>: a new table without the column.\<close>

definition drop_column :: "string \<Rightarrow> dataframe \<Rightarrow> error + dataframe" where
  "drop_column c df =
     (if c \<in> set (columns df)
      then Inr \<lparr>columns = removeAll c (columns df), rows = map (AList.delete c) (rows df)\<rparr>
      else Inl KeyError)"

text \<open>\<open>df[mask]\<close>: a new table with the rows whose mask entry is true, in their order.\<close>

definition select_rows :: "bool list \<Rightarrow> dataframe \<Rightarrow> dataframe" where
  "select_rows keep df =
     \<lparr>columns = columns df, rows = map fst (filter snd (zip (rows df) keep))\<rparr>"

text \<open>
  \<open>pd.to_datetime(column, format='%m/%d/%Y')\<close>.  The parser of pandas for the format is
  a parameter: it gives \<open>Some (Stamp d)\<close> for a text that it reads as the date \<open>d\<close>,
  \<open>Some NaT\<close> for a text that it reads as a missing date, and \<open>None\<close> for a text
  that does not match, on which the whole conversion raises \<open>ValueError\<close>.
\<close>

type_synonym date_parser = "string \<Rightarrow> cell option"

definition parse_cell :: "date_parser \<Rightarrow> cell \<Rightarrow> cell option" where
  "parse_cell parse c = (case c of Str s \<Rightarrow> parse s | Stamp d \<Rightarrow> Some (Stamp d) | NaT \<Rightarrow> Some NaT)"

definition to_datetime :: "date_parser \<Rightarrow> cell list \<Rightarrow> error + cell list" where
  "to_datetime parse cs =
     (if list_all (\<lambda>c. parse_cell parse c \<noteq> None) cs
      then Inr (map (\<lambda>c. case parse_cell parse c of Some v \<Rightarrow> v | None \<Rightarrow> NaT) cs)
      else Inl ValueError)"

text \<open>The mask \<open>(column >= lo) & (column <= hi)\<close>; a missing date compares false.\<close>

definition between_mask :: "datetime \<Rightarrow> datetime \<Rightarrow> cell list \<Rightarrow> bool list" where
  "between_mask lo hi cs =
     map (\<lambda>c. case c of Stamp d \<Rightarrow> date_le lo d \<and> date_le d hi | _ \<Rightarrow> False) cs"

text \<open>\<open>.astype(str).str.strip()\<close> on a cell.\<close>

definition is_space :: "char \<Rightarrow> bool" where
  "is_space c = (c \<in> set [CHR '' '', CHR 0x09, CHR 0x0A, CHR 0x0B, CHR 0x0C, CHR 0x0D,
                            CHR 0x1C, CHR 0x1D, CHR 0x1E, CHR 0x1F])"

definition strip :: "string \<Rightarrow> string" where
  "strip s = rev (dropWhile is_space (rev (dropWhile is_space s)))"

definition astype_str :: "cell \<Rightarrow> string" where
  "astype_str c = (case c of Str s \<Rightarrow> s | Stamp d \<Rightarrow> strftime_ymd d | NaT \<Rightarrow> ''nan'')"

section \<open>The store of tables and the run\<close>

text \<open>
  Tables are objects: a variable holds a reference into the store, and an assignment to
  a column changes the object in place.  A reference is the index of its object; the
  references that the script holds are always below the length of the store.
\<close>

type_synonym ref = nat

record world =
  heap :: "dataframe list"
  disk :: fsys

definition deepcopy :: "ref \<Rightarrow> world \<Rightarrow> ref \<times> world" where
  "deepcopy r w = (length (heap w), w\<lparr>heap := heap w @ [heap w ! r]\<rparr>)"

definition new_table :: "dataframe \<Rightarrow> world \<Rightarrow> ref \<times> world" where
  "new_table df w = (length (heap w), w\<lparr>heap := heap w @ [df]\<rparr>)"

text \<open>\<open>pd.read_csv(p)\<close>; a path that does not hold a table is an error of the reader.\<close>

definition read_csv :: "path \<Rightarrow> world \<Rightarrow> (error + ref) \<times> world" where
  "read_csv p w =
     (case map_of (files (disk w)) p of
        Some (Csv df) \<Rightarrow> (case new_table df w of (r, w') \<Rightarrow> (Inr r, w'))
      | _ \<Rightarrow> (Inl OSError, w))"

text \<open>
  \<open>df.to_csv(p, index=False)\<close>.  pandas checks the folder above \<open>p\<close> before it opens
  the file and raises \<open>OSError\<close> when that is not an existing folder; opening a path that
  is itself a folder raises \<open>IsADirectoryError\<close>, which is an \<open>OSError\<close>.  Otherwise the
  file is created, or replaced when it is there.  Nothing on the way creates a folder.
\<close>

definition writable :: "fsys \<Rightarrow> path \<Rightarrow> bool" where
  "writable fs p = (butlast p \<in> set (dirs fs) \<and> p \<notin> set (dirs fs))"

definition write_file :: "path \<Rightarrow> content \<Rightarrow> fsys \<Rightarrow> fsys" where
  "write_file p c fs = fs\<lparr>files := AList.update p c (files fs)\<rparr>"

definition to_csv :: "path \<Rightarrow> dataframe \<Rightarrow> world \<Rightarrow> (error + unit) \<times> world" where
  "to_csv p df w =
     (if writable (disk w) p then (Inr (), w\<lparr>disk := write_file p (Csv df) (disk w)\<rparr>)
      else (Inl OSError, w))"

text \<open>\<open>df[c] = df[c].astype(str).str.strip()\<close>, on the object itself.\<close>

definition strip_column :: "string \<Rightarrow> ref \<Rightarrow> world \<Rightarrow> (error + unit) \<times> world" where
  "strip_column c r w =
     (case get_column c (heap w ! r) of
        Inl e \<Rightarrow> (Inl e, w)
      | Inr cs \<Rightarrow>
          (Inr (), w\<lparr>heap := (heap w)[r := set_column c (map (\<lambda>v. Str (strip (astype_str v))) cs) (heap w ! r)]\<rparr>))"

text \<open>\<open>df = df[df[c] != c]\<close>: a new object without the repeated header lines.\<close>

definition drop_header_rows :: "string \<Rightarrow> ref \<Rightarrow> world \<Rightarrow> (error + ref) \<times> world" where
  "drop_header_rows c r w =
     (case get_column c (heap w ! r) of
        Inl e \<Rightarrow> (Inl e, w)
      | Inr cs \<Rightarrow>
          (case new_table (select_rows (map (\<lambda>v. v \<noteq> Str c) cs) (heap w ! r)) w of
             (r', w') \<Rightarrow> (Inr r', w')))"

definition load_csv_files :: "string \<Rightarrow> world \<Rightarrow> (error + ref \<times> ref) \<times> world" where
  "load_csv_files source_folder w =
     (let ho_path = [source_folder, ''perf'', ''Holdings.csv''];
          tr_path = [source_folder, ''perf'', ''Transactions.csv'']
      in if \<not> path_exists (disk w) ho_path then (Inl FileNotFoundError, w)
         else if \<not> path_exists (disk w) tr_path then (Inl FileNotFoundError, w)
         else
           (case read_csv ho_path w of
              (Inl e, w1) \<Rightarrow> (Inl e, w1)
            | (Inr df_ho, w1) \<Rightarrow>
           (case read_csv tr_path w1 of
              (Inl e, w2) \<Rightarrow> (Inl e, w2)
            | (Inr df_tr, w2) \<Rightarrow>
           (case strip_column ''Valuation Date'' df_ho w2 of
              (Inl e, w3) \<Rightarrow> (Inl e, w3)
            | (Inr _, w3) \<Rightarrow>
           (case strip_column ''Transaction Date'' df_tr w3 of
              (Inl e, w4) \<Rightarrow> (Inl e, w4)
            | (Inr _, w4) \<Rightarrow>
           (case drop_header_rows ''Valuation Date'' df_ho w4 of
              (Inl e, w5) \<Rightarrow> (Inl e, w5)
            | (Inr df_ho', w5) \<Rightarrow>
           (case drop_header_rows ''Transaction Date'' df_tr w5 of
              (Inl e, w6) \<Rightarrow> (Inl e, w6)
            | (Inr df_tr', w6) \<Rightarrow> (Inr (df_ho', df_tr'), w6))))))))"

text \<open>
  \<open>df[dst] = pd.to_datetime(df[src], format='%m/%d/%Y')\<close>, on the object itself; nothing
  is assigned when the conversion raises.
\<close>

definition assign_datetime_column ::
  "date_parser \<Rightarrow> string \<Rightarrow> string \<Rightarrow> ref \<Rightarrow> world \<Rightarrow> (error + unit) \<times> world" where
  "assign_datetime_column parse src dst r w =
     (case get_column src (heap w ! r) of
        Inl e \<Rightarrow> (Inl e, w)
      | Inr cs \<Rightarrow>
          (case to_datetime parse cs of
             Inl e \<Rightarrow> (Inl e, w)
           | Inr stamps \<Rightarrow> (Inr (), w\<lparr>heap := (heap w)[r := set_column dst stamps (heap w ! r)]\<rparr>)))"

text \<open>\<open>df[(df[c] >= lo) & (df[c] <= hi)].drop(c, axis=1)\<close>: new tables, the object is only read.\<close>

definition rows_between :: "string \<Rightarrow> datetime \<Rightarrow> datetime \<Rightarrow> dataframe \<Rightarrow> error + dataframe" where
  "rows_between c lo hi df =
     (case get_column c df of
        Inl e \<Rightarrow> Inl e
      | Inr cs \<Rightarrow> drop_column c (select_rows (between_mask lo hi cs) df))"

definition filter_and_save_csv ::
  "date_parser \<Rightarrow> ref \<Rightarrow> ref \<Rightarrow> datetime \<Rightarrow> datetime \<Rightarrow> string \<Rightarrow> world \<Rightarrow> (error + unit) \<times> world" where
  "filter_and_save_csv parse df_ho df_tr inception_date folder_date folder_name w =
     (case deepcopy df_ho w of (df_ho_temp, w1) \<Rightarrow>
      case deepcopy df_tr w1 of (df_tr_temp, w2) \<Rightarrow>
      case assign_datetime_column parse ''Valuation Date'' ''Valuation Date Datetime'' df_ho_temp w2 of
        (Inl e, w3) \<Rightarrow> (Inl e, w3)
      | (Inr _, w3) \<Rightarrow>
      case assign_datetime_column parse ''Transaction Date'' ''Transaction Date Datetime'' df_tr_temp w3 of
        (Inl e, w4) \<Rightarrow> (Inl e, w4)
      | (Inr _, w4) \<Rightarrow>
      case rows_between ''Valuation Date Datetime'' inception_date folder_date (heap w4 ! df_ho_temp) of
        Inl e \<Rightarrow> (Inl e, w4)
      | Inr df_ho_filtered \<Rightarrow>
      case rows_between ''Transaction Date Datetime'' inception_date folder_date (heap w4 ! df_tr_temp) of
        Inl e \<Rightarrow> (Inl e, w4)
      | Inr df_tr_filtered \<Rightarrow>
      case to_csv [folder_name, ''perf'', ''Holdings.csv''] df_ho_filtered w4 of
        (Inl e, w5) \<Rightarrow> (Inl e, w5)
      | (Inr _, w5) \<Rightarrow> to_csv [folder_name, ''perf'', ''Transactions.csv''] df_tr_filtered w5)"

text \<open>
  \<open>datetime.strptime(name, '%Y-%m-%d')\<close> on the names that \<open>strftime_ymd\<close> writes:
  four digits, a dash, two digits, a dash, two digits, and then the field check of the
  constructor; \<open>ValueError\<close> otherwise.
\<close>

definition digit_val :: "char \<Rightarrow> nat option" where
  "digit_val c =
     map_of [(CHR ''0'', 0), (CHR ''1'', 1), (CHR ''2'', 2), (CHR ''3'', 3), (CHR ''4'', 4),
             (CHR ''5'', 5), (CHR ''6'', 6), (CHR ''7'', 7), (CHR ''8'', 8), (CHR ''9'', 9)] c"

fun decimal :: "nat \<Rightarrow> string \<Rightarrow> nat option" where
  "decimal acc [] = Some acc"
| "decimal acc (c # cs) =
     (case digit_val c of None \<Rightarrow> None | Some v \<Rightarrow> decimal (10 * acc + v) cs)"

definition strptime_ymd :: "string \<Rightarrow> error + datetime" where
  "strptime_ymd s =
     (if length s = 10 \<and> s ! 4 = CHR ''-'' \<and> s ! 7 = CHR ''-''
      then (case (decimal 0 (take 4 s), decimal 0 (take 2 (drop 5 s)), decimal 0 (drop 8 s)) of
              (Some y, Some m, Some d) \<Rightarrow> mk_datetime (int y) (int m) (int d)
            | _ \<Rightarrow> Inl ValueError)
      else Inl ValueError)"

text \<open>The loop of \<open>main\<close> over the folders.\<close>

fun process_folders ::
  "date_parser \<Rightarrow> ref \<Rightarrow> ref \<Rightarrow> datetime \<Rightarrow> string list \<Rightarrow> world \<Rightarrow> (error + unit) \<times> world" where
  "process_folders parse df_ho df_tr inception_date [] w = (Inr (), w)"
| "process_folders parse df_ho df_tr inception_date (folder_name # rest) w =
     (case strptime_ymd folder_name of
        Inl e \<Rightarrow> (Inl e, w)
      | Inr folder_date \<Rightarrow>
          (case filter_and_save_csv parse df_ho df_tr inception_date folder_date folder_name w of
             (Inl e, w') \<Rightarrow> (Inl e, w')
           | (Inr _, w') \<Rightarrow> process_folders parse df_ho df_tr inception_date rest w'))"

section \<open>Copying the auxiliary folders\<close>

fun starts_with :: "path \<Rightarrow> path \<Rightarrow> bool" where
  "starts_with [] q = True"
| "starts_with (x # xs) [] = False"
| "starts_with (x # xs) (y # ys) = (x = y \<and> starts_with xs ys)"

text \<open>\<open>shutil.rmtree(p)\<close>: the folder and everything below it is removed.\<close>

definition rmtree :: "path \<Rightarrow> fsys \<Rightarrow> fsys" where
  "rmtree p fs =
     \<lparr>dirs = filter (\<lambda>q. \<not> starts_with p q) (dirs fs),
      files = filter (\<lambda>(q, c). \<not> starts_with p q) (files fs)\<rparr>"

text \<open>
  \<open>shutil.copytree(src, dst)\<close>: the folder \<open>src\<close> and everything below it is copied
  under \<open>dst\<close>; it raises when \<open>src\<close> is missing and when \<open>dst\<close> exists.
\<close>

definition copytree :: "path \<Rightarrow> path \<Rightarrow> fsys \<Rightarrow> error + fsys" where
  "copytree src dst fs =
     (if src \<notin> set (dirs fs) then Inl FileNotFoundError
      else if path_exists fs dst then Inl FileExistsError
      else Inr \<lparr>dirs = dirs fs @ map (\<lambda>q. dst @ drop (length src) q) (filter (starts_with src) (dirs fs)),
                files = files fs @
                  map (\<lambda>(q, c). (dst @ drop (length src) q, c))
                    (filter (\<lambda>(q, c). starts_with src q) (files fs))\<rparr>)"

text \<open>One of the two copies of the body of the loop of \<open>copy_additional_folders\<close>.\<close>

definition replace_folder :: "path \<Rightarrow> path \<Rightarrow> fsys \<Rightarrow> (error + unit) \<times> fsys" where
  "replace_folder src dst fs =
     (if path_exists fs src
      then (let fs1 = (if path_exists fs dst then rmtree dst fs else fs)
            in case copytree src dst fs1 of
                 Inl e \<Rightarrow> (Inl e, fs1)
               | Inr fs2 \<Rightarrow> (Inr (), fs2))
      else (Inr (), fs))"

fun copy_additional_folders :: "string \<Rightarrow> string list \<Rightarrow> fsys \<Rightarrow> (error + unit) \<times> fsys" where
  "copy_additional_folders source_folder [] fs = (Inr (), fs)"
| "copy_additional_folders source_folder (target_folder # rest) fs =
     (case replace_folder [source_folder, ''context_data''] [target_folder, ''context_data''] fs of
        (Inl e, fs1) \<Rightarrow> (Inl e, fs1)
      | (Inr _, fs1) \<Rightarrow>
          (case replace_folder [source_folder, ''portfolio''] [target_folder, ''portfolio''] fs1 of
             (Inl e, fs2) \<Rightarrow> (Inl e, fs2)
           | (Inr _, fs2) \<Rightarrow> copy_additional_folders source_folder rest fs2))"

section \<open>The run\<close>

text \<open>
  \<open>main\<close> after \<open>get_user_input\<close> has returned the two dates, the source folder and the
  frequency.  Every exception is caught at the end of \<open>main\<close> and printed; what the
  caller can observe is the last line printed: \<open>Run is done!\<close> or \<open>Error: ...\<close>.
\<close>

datatype outcome = Run_is_done | Error_printed error

definition main ::
  "date_parser \<Rightarrow> datetime \<Rightarrow> datetime \<Rightarrow> string \<Rightarrow> frequency \<Rightarrow> world \<Rightarrow> outcome \<times> world" where
  "main parse inception_date end_date source_folder frequency w =
     (case create_folder_structure inception_date end_date frequency (disk w) of
        (Inl e, fs1) \<Rightarrow> (Error_printed e, w\<lparr>disk := fs1\<rparr>)
      | (Inr folders_to_process, fs1) \<Rightarrow>
     (case load_csv_files source_folder (w\<lparr>disk := fs1\<rparr>) of
        (Inl e, w2) \<Rightarrow> (Error_printed e, w2)
      | (Inr (df_ho, df_tr), w2) \<Rightarrow>
     (case process_folders parse df_ho df_tr inception_date folders_to_process w2 of
        (Inl e, w3) \<Rightarrow> (Error_printed e, w3)
      | (Inr _, w3) \<Rightarrow>
     (case copy_additional_folders source_folder folders_to_process (disk w3) of
        (Inl e, fs4) \<Rightarrow> (Error_printed e, w3\<lparr>disk := fs4\<rparr>)
      | (Inr _, fs4) \<Rightarrow> (Run_is_done, w3\<lparr>disk := fs4\<rparr>)))))"

text \<open>An example: a parser for the zero-padded form of \<open>%m/%d/%Y\<close>, and a small tree.\<close>

definition parse_mdy :: date_parser where
  "parse_mdy s =
     (if s = [] then Some NaT
      else if length s = 10 \<and> s ! 2 = CHR ''/'' \<and> s ! 5 = CHR ''/''
      then (case (decimal 0 (take 2 s), decimal 0 (take 2 (drop 3 s)), decimal 0 (drop 6 s)) of
              (Some m, Some d, Some y) \<Rightarrow>
                (case mk_datetime (int y) (int m) (int d) of Inl e \<Rightarrow> None | Inr r \<Rightarrow> Some (Stamp r))
            | _ \<Rightarrow> None)
      else None)"

definition example_holdings :: dataframe where
  "example_holdings =
     \<lparr>columns = [''Portfolio Code'', ''Valuation Date'', ''Quantity''],
      rows = [[(''Portfolio Code'', Str ''P1''), (''Valuation Date'', Str ''02/15/2023''), (''Quantity'', Str ''10'')],
              [(''Portfolio Code'', Str ''P1''), (''Valuation Date'', Str ''05/20/2023''), (''Quantity'', Str ''12'')],
              [(''Portfolio Code'', Str ''P1''), (''Valuation Date'', Str ''12/31/2022''), (''Quantity'', Str ''7'')]]\<rparr>"

definition example_transactions :: dataframe where
  "example_transactions =
     \<lparr>columns = [''Portfolio Code'', ''Transaction Date'', ''Amount''],
      rows = [[(''Portfolio Code'', Str ''P1''), (''Transaction Date'', Str ''07/01/2023''), (''Amount'', Str ''5'')],
              [(''Portfolio Code'', Str ''P1''), (''Transaction Date'', Str ''03/31/2023''), (''Amount'', Str ''-2'')]]\<rparr>"

definition example_world :: world where
  "example_world =
     \<lparr>heap = [],
      disk = \<lparr>dirs = [[''2023-07-10-source''], [''2023-07-10-source'', ''perf'']],
              files = [([''2023-07-10-source'', ''perf'', ''Holdings.csv''], Csv example_holdings),
                       ([''2023-07-10-source'', ''perf'', ''Transactions.csv''], Csv example_transactions)]\<rparr>\<rparr>"

text \<open>The same tree with the two tables loaded, and the tree without Holdings.csv.\<close>

definition example_loaded :: world where
  "example_loaded = example_world\<lparr>heap := [example_holdings, example_transactions]\<rparr>"


lemma new_table_disk: "disk (snd (new_table df w)) = disk w"
  by (simp add: new_table_def)

lemma read_csv_disk: "disk (snd (read_csv p w)) = disk w"
  by (simp add: read_csv_def new_table_def split: option.splits content.splits)

lemma strip_column_disk: "disk (snd (strip_column c r w)) = disk w"
  by (simp add: strip_column_def split: sum.splits)

lemma drop_header_rows_disk: "disk (snd (drop_header_rows c r w)) = disk w"
  by (simp add: drop_header_rows_def new_table_def split: sum.splits)

lemma step_disk:
  assumes "disk (snd m) = d" "\<And>x w1. disk w1 = d \<Longrightarrow> disk (snd (rest x w1)) = d"
  shows "disk (snd (case m of (Inl e, w1) \<Rightarrow> (Inl e, w1) | (Inr x, w1) \<Rightarrow> rest x w1)) = d"
  using assms by (cases m; cases "fst m") auto

lemma load_csv_files_disk: "disk (snd (load_csv_files s w)) = disk w"
  unfolding load_csv_files_def Let_def
  by (auto intro!: step_disk simp add: read_csv_disk strip_column_disk drop_header_rows_disk)























section \<open>The store under the filter\<close>

lemma assign_datetime_column_below:
  "n \<le> r \<Longrightarrow> take n (heap (snd (assign_datetime_column parse s d r w))) = take n (heap w)"
  by (simp add: assign_datetime_column_def split: sum.splits)

lemma assign_datetime_column_disk:
  "disk (snd (assign_datetime_column parse s d r w)) = disk w"
  by (simp add: assign_datetime_column_def split: sum.splits)

lemma to_csv_heap: "heap (snd (to_csv p df w)) = heap w"
  by (simp add: to_csv_def)

lemma step_below:
  assumes "take n (heap (snd m)) = h"
    and "\<And>x w1. take n (heap w1) = h \<Longrightarrow> take n (heap (snd (rest x w1))) = h"
  shows "take n (heap (snd (case m of (Inl e, w1) \<Rightarrow> (Inl e, w1) | (Inr x, w1) \<Rightarrow> rest x w1))) = h"
  using assms by (cases m; cases "fst m") auto

lemma step_below_pure:
  assumes "take n (heap w) = h"
    and "\<And>x. take n (heap (snd (rest x))) = h"
  shows "take n (heap (snd (case m of Inl e \<Rightarrow> (Inl e, w) | Inr x \<Rightarrow> rest x))) = h"
  using assms by (cases m) auto

lemma filter_and_save_csv_store:
  "take (length (heap w)) (heap (snd (filter_and_save_csv parse df_ho df_tr inc p name w))) = heap w"
  unfolding filter_and_save_csv_def deepcopy_def
  by (auto intro!: step_below step_below_pure
      simp add: assign_datetime_column_below to_csv_heap)

lemma filter_and_save_csv_grows:
  "length (heap w) \<le> length (heap (snd (filter_and_save_csv parse df_ho df_tr inc p name w)))"
proof -
  have "length (take (length (heap w)) (heap (snd (filter_and_save_csv parse df_ho df_tr inc p name w))))
      = length (heap w)"
    by (simp only: filter_and_save_csv_store)
  then show ?thesis by simp
qed

lemma process_folders_store:
  "take (length (heap w)) (heap (snd (process_folders parse df_ho df_tr inc names w))) = heap w"
proof (induction names arbitrary: w)
  case Nil
  then show ?case by simp
next
  case (Cons name rest)
  show ?case
  proof (cases "strptime_ymd name")
    case (Inl e)
    then show ?thesis by simp
  next
    case (Inr folder_date)
    obtain x w' where f: "filter_and_save_csv parse df_ho df_tr inc folder_date name w = (x, w')"
      by (cases "filter_and_save_csv parse df_ho df_tr inc folder_date name w")
    have s: "take (length (heap w)) (heap w') = heap w"
      using filter_and_save_csv_store[of w parse df_ho df_tr inc folder_date name] f by simp
    have g: "length (heap w) \<le> length (heap w')"
      using filter_and_save_csv_grows[of w parse df_ho df_tr inc folder_date name] f by simp
    show ?thesis
    proof (cases x)
      case (Inl e)
      then show ?thesis using Inr f s by simp
    next
      case r: (Inr u)
      have "take (length (heap w')) (heap (snd (process_folders parse df_ho df_tr inc rest w'))) = heap w'"
        by (rule Cons.IH)
      then have "take (length (heap w)) (take (length (heap w')) (heap (snd (process_folders parse df_ho df_tr inc rest w'))))
           = take (length (heap w)) (heap w')" by simp
      then have "take (length (heap w)) (heap (snd (process_folders parse df_ho df_tr inc rest w'))) = heap w"
        using g s by (simp add: min_def)
      then show ?thesis using Inr f r by simp
    qed
  qed
qed

lemma store_prefix_nth:
  assumes "take n xs = ys" "r < length ys"
  shows "xs ! r = ys ! r"
proof -
  have "r < n" using assms by auto
  then have "take n xs ! r = xs ! r" by simp
  then show ?thesis using assms(1) by simp
qed

section \<open>What the filter writes\<close>

text \<open>
  The date of a row under the parser, the rows of a table whose dates all parse, and the
  rows within an inclusive range of dates.  A table is well formed when every row has
  exactly the columns of the table, in their order.
\<close>

definition date_of :: "date_parser \<Rightarrow> string \<Rightarrow> row \<Rightarrow> datetime option" where
  "date_of parse c r =
     (case map_of r c of
        Some (Str s) \<Rightarrow> (case parse s of Some (Stamp d) \<Rightarrow> Some d | _ \<Rightarrow> None)
      | _ \<Rightarrow> None)"

definition all_dates_parse :: "date_parser \<Rightarrow> string \<Rightarrow> dataframe \<Rightarrow> bool" where
  "all_dates_parse parse c df =
     (c \<in> set (columns df) \<and> list_all (\<lambda>r. date_of parse c r \<noteq> None) (rows df))"

definition well_formed :: "dataframe \<Rightarrow> bool" where
  "well_formed df = list_all (\<lambda>r. map fst r = columns df) (rows df)"

definition in_range :: "date_parser \<Rightarrow> string \<Rightarrow> datetime \<Rightarrow> datetime \<Rightarrow> row \<Rightarrow> bool" where
  "in_range parse c lo hi r =
     (case date_of parse c r of Some d \<Rightarrow> date_le lo d \<and> date_le d hi | None \<Rightarrow> False)"

text \<open>The table after \<open>df[h] = pd.to_datetime(df[c], format='%m/%d/%Y')\<close>.\<close>

definition stamp_of :: "date_parser \<Rightarrow> string \<Rightarrow> row \<Rightarrow> cell" where
  "stamp_of parse c r =
     (case parse_cell parse (case map_of r c of Some v \<Rightarrow> v | None \<Rightarrow> NaT) of
        Some v \<Rightarrow> v | None \<Rightarrow> NaT)"

definition with_stamps :: "date_parser \<Rightarrow> string \<Rightarrow> string \<Rightarrow> dataframe \<Rightarrow> dataframe" where
  "with_stamps parse c h df =
     \<lparr>columns = (if h \<in> set (columns df) then columns df else columns df @ [h]),
      rows = map (\<lambda>r. AList.update h (stamp_of parse c r) r) (rows df)\<rparr>"

lemma map_zip_same: "map f (zip xs (map g xs)) = map (\<lambda>x. f (x, g x)) xs"
  by (induction xs) simp_all

lemma select_zip: "map fst (filter snd (zip (map u xs) (map q xs))) = map u (filter q xs)"
  by (induction xs) simp_all

lemma date_of_stamp:
  "date_of parse c r = Some d \<Longrightarrow>
   parse_cell parse (case map_of r c of Some v \<Rightarrow> v | None \<Rightarrow> NaT) = Some (Stamp d)"
  by (auto simp add: date_of_def parse_cell_def split: option.splits cell.splits)

lemma stamp_of_date: "date_of parse c r = Some d \<Longrightarrow> stamp_of parse c r = Stamp d"
  by (simp add: stamp_of_def date_of_stamp)

lemma to_datetime_all_parse:
  assumes "all_dates_parse parse c df"
  shows "to_datetime parse (map (\<lambda>r. case map_of r c of Some v \<Rightarrow> v | None \<Rightarrow> NaT) (rows df))
       = Inr (map (stamp_of parse c) (rows df))"
proof -
  have "parse_cell parse (case map_of r c of Some v \<Rightarrow> v | None \<Rightarrow> NaT) \<noteq> None"
    if "r \<in> set (rows df)" for r
  proof -
    have "date_of parse c r \<noteq> None"
      using assms that by (simp add: all_dates_parse_def list_all_iff)
    then obtain d where "date_of parse c r = Some d" by blast
    then show ?thesis using date_of_stamp[of parse c r d] by simp
  qed
  then show ?thesis
    by (simp add: to_datetime_def list_all_iff stamp_of_def comp_def)
qed

lemma assign_datetime_column_ok:
  assumes "heap w ! r = df" "all_dates_parse parse c df"
  shows "assign_datetime_column parse c h r w =
           (Inr (), w\<lparr>heap := (heap w)[r := with_stamps parse c h df]\<rparr>)"
proof -
  have g: "get_column c df = Inr (map (\<lambda>r. case map_of r c of Some v \<Rightarrow> v | None \<Rightarrow> NaT) (rows df))"
    using assms(2) by (simp add: get_column_def all_dates_parse_def)
  have s: "set_column h (map (stamp_of parse c) (rows df)) df = with_stamps parse c h df"
    by (simp add: set_column_def with_stamps_def map_zip_same)
  show ?thesis
    by (simp add: assign_datetime_column_def assms(1) g to_datetime_all_parse[OF assms(2)] s)
qed

lemma stamp_lookup:
  "(case map_of (AList.update h v r) h of Some x \<Rightarrow> x | None \<Rightarrow> NaT) = v"
  by (simp add: update_conv')

lemma in_range_stamp:
  assumes "date_of parse c r \<noteq> None"
  shows "(case stamp_of parse c r of Stamp d \<Rightarrow> date_le lo d \<and> date_le d hi | _ \<Rightarrow> False)
       = in_range parse c lo hi r"
proof -
  obtain d where d: "date_of parse c r = Some d" using assms by blast
  show ?thesis by (simp add: in_range_def d stamp_of_date[OF d])
qed

lemma rows_between_with_stamps:
  assumes wf: "well_formed df" and h: "h \<notin> set (columns df)" and p: "all_dates_parse parse c df"
  shows "rows_between h lo hi (with_stamps parse c h df)
       = Inr \<lparr>columns = columns df, rows = filter (in_range parse c lo hi) (rows df)\<rparr>"
proof -
  define u where "u = (\<lambda>r. AList.update h (stamp_of parse c r) r)"
  define q where "q = (\<lambda>r. case stamp_of parse c r of Stamp d \<Rightarrow> date_le lo d \<and> date_le d hi | _ \<Rightarrow> False)"
  have cols: "columns (with_stamps parse c h df) = columns df @ [h]"
    using h by (simp add: with_stamps_def)
  have rws: "rows (with_stamps parse c h df) = map u (rows df)"
    by (simp add: with_stamps_def u_def)
  have g: "get_column h (with_stamps parse c h df) = Inr (map (stamp_of parse c) (rows df))"
    by (simp add: get_column_def cols rws u_def comp_def stamp_lookup)
  have m: "between_mask lo hi (map (stamp_of parse c) (rows df)) = map q (rows df)"
    by (simp add: between_mask_def q_def)
  have s: "select_rows (map q (rows df)) (with_stamps parse c h df)
        = \<lparr>columns = columns df @ [h], rows = map u (filter q (rows df))\<rparr>"
    by (simp add: select_rows_def cols rws select_zip)
  have keys: "h \<notin> fst ` set r" if "r \<in> set (rows df)" for r
  proof -
    have "map fst r = columns df" using wf that by (simp add: well_formed_def list_all_iff)
    then have "fst ` set r = set (columns df)" by (metis set_map)
    then show ?thesis using h by simp
  qed
  have del: "map (AList.delete h) (map u (filter q (rows df))) = filter q (rows df)"
  proof -
    have "AList.delete h (u r) = r" if "r \<in> set (rows df)" for r
      using keys[OF that] by (simp add: u_def delete_update_same delete_notin_dom image_iff delete_id)
    then have "map (\<lambda>r. AList.delete h (u r)) (filter q (rows df)) = map (\<lambda>r. r) (filter q (rows df))"
      by (intro map_cong) auto
    then show ?thesis by (simp add: comp_def)
  qed
  have qq: "filter q (rows df) = filter (in_range parse c lo hi) (rows df)"
  proof (rule filter_cong[OF refl])
    fix r assume "r \<in> set (rows df)"
    then have "date_of parse c r \<noteq> None"
      using p by (simp add: all_dates_parse_def list_all_iff)
    then show "q r = in_range parse c lo hi r" unfolding q_def by (rule in_range_stamp)
  qed
  have "drop_column h \<lparr>columns = columns df @ [h], rows = map u (filter q (rows df))\<rparr>
      = Inr \<lparr>columns = columns df, rows = map (AList.delete h) (map u (filter q (rows df)))\<rparr>"
    using h by (simp add: drop_column_def)
  then have "drop_column h \<lparr>columns = columns df @ [h], rows = map u (filter q (rows df))\<rparr>
      = Inr \<lparr>columns = columns df, rows = filter q (rows df)\<rparr>"
    by (simp only: del)
  then show ?thesis by (simp add: rows_between_def g m s qq)
qed

text \<open>
  The folder of a period is ready when the two tables can be written below its \<open>perf\<close>
  subfolder.  Writing a file, and so the filter, leaves the folders as they are.
\<close>

definition period_folder_ready :: "fsys \<Rightarrow> string \<Rightarrow> bool" where
  "period_folder_ready fs name =
     (writable fs [name, ''perf'', ''Holdings.csv''] \<and> writable fs [name, ''perf'', ''Transactions.csv''])"

lemma writable_write_file: "writable (write_file p c fs) q = writable fs q"
  by (simp add: writable_def write_file_def)

lemma period_folder_ready_dirs:
  "dirs fs' = dirs fs \<Longrightarrow> period_folder_ready fs' name = period_folder_ready fs name"
  by (simp add: period_folder_ready_def writable_def)

lemma filter_and_save_csv_result:
  assumes ho: "df_ho < length (heap w)" and tr: "df_tr < length (heap w)"
    and wf: "well_formed (heap w ! df_ho)" "well_formed (heap w ! df_tr)"
    and nh: "''Valuation Date Datetime'' \<notin> set (columns (heap w ! df_ho))"
            "''Transaction Date Datetime'' \<notin> set (columns (heap w ! df_tr))"
    and ap: "all_dates_parse parse ''Valuation Date'' (heap w ! df_ho)"
            "all_dates_parse parse ''Transaction Date'' (heap w ! df_tr)"
    and rd: "period_folder_ready (disk w) name"
  shows "filter_and_save_csv parse df_ho df_tr lo hi name w =
     (Inr (),
      w\<lparr>heap := heap w @
           [with_stamps parse ''Valuation Date'' ''Valuation Date Datetime'' (heap w ! df_ho),
            with_stamps parse ''Transaction Date'' ''Transaction Date Datetime'' (heap w ! df_tr)],
        disk :=
          write_file [name, ''perf'', ''Transactions.csv'']
            (Csv \<lparr>columns = columns (heap w ! df_tr),
                  rows = filter (in_range parse ''Transaction Date'' lo hi) (rows (heap w ! df_tr))\<rparr>)
            (write_file [name, ''perf'', ''Holdings.csv'']
               (Csv \<lparr>columns = columns (heap w ! df_ho),
                     rows = filter (in_range parse ''Valuation Date'' lo hi) (rows (heap w ! df_ho))\<rparr>)
               (disk w))\<rparr>)"
proof -
  define n where "n = length (heap w)"
  define H where "H = heap w ! df_ho"
  define T where "T = heap w ! df_tr"
  define w2 where "w2 = w\<lparr>heap := heap w @ [H, T]\<rparr>"
  define w3 where "w3 = w2\<lparr>heap := (heap w2)[n := with_stamps parse ''Valuation Date'' ''Valuation Date Datetime'' H]\<rparr>"
  define w4 where "w4 = w3\<lparr>heap := (heap w3)[Suc n := with_stamps parse ''Transaction Date'' ''Transaction Date Datetime'' T]\<rparr>"
  have c1: "deepcopy df_ho w = (n, w\<lparr>heap := heap w @ [H]\<rparr>)"
    by (simp add: deepcopy_def n_def H_def)
  have c2: "deepcopy df_tr (w\<lparr>heap := heap w @ [H]\<rparr>) = (Suc n, w2)"
    using tr by (simp add: deepcopy_def n_def T_def w2_def nth_append)
  have h2: "heap w2 ! n = H" "heap w2 ! Suc n = T" by (simp_all add: w2_def n_def nth_append)
  have a3: "assign_datetime_column parse ''Valuation Date'' ''Valuation Date Datetime'' n w2 = (Inr (), w3)"
    unfolding w3_def using h2(1) ap(1) unfolding H_def[symmetric] by (rule assign_datetime_column_ok)
  have h3: "heap w3 ! Suc n = T" by (simp add: w3_def h2)
  have a4: "assign_datetime_column parse ''Transaction Date'' ''Transaction Date Datetime'' (Suc n) w3 = (Inr (), w4)"
    unfolding w4_def using h3 ap(2) unfolding T_def[symmetric] by (rule assign_datetime_column_ok)
  have h4: "heap w4 ! n = with_stamps parse ''Valuation Date'' ''Valuation Date Datetime'' H"
           "heap w4 ! Suc n = with_stamps parse ''Transaction Date'' ''Transaction Date Datetime'' T"
    by (simp_all add: w4_def w3_def w2_def n_def nth_append)
  have r1: "rows_between ''Valuation Date Datetime'' lo hi (heap w4 ! n)
       = Inr \<lparr>columns = columns H, rows = filter (in_range parse ''Valuation Date'' lo hi) (rows H)\<rparr>"
    unfolding h4 using wf(1) nh(1) ap(1) unfolding H_def[symmetric] by (rule rows_between_with_stamps)
  have r2: "rows_between ''Transaction Date Datetime'' lo hi (heap w4 ! Suc n)
       = Inr \<lparr>columns = columns T, rows = filter (in_range parse ''Transaction Date'' lo hi) (rows T)\<rparr>"
    unfolding h4 using wf(2) nh(2) ap(2) unfolding T_def[symmetric] by (rule rows_between_with_stamps)
  have e4: "w4 = w\<lparr>heap := heap w @
                 [with_stamps parse ''Valuation Date'' ''Valuation Date Datetime'' H,
                  with_stamps parse ''Transaction Date'' ''Transaction Date Datetime'' T]\<rparr>"
    by (simp add: w4_def w3_def w2_def n_def list_update_append)
  have d4: "disk w4 = disk w" by (simp add: w4_def w3_def w2_def)
  have o1: "to_csv [name, ''perf'', ''Holdings.csv'']
        \<lparr>columns = columns H, rows = filter (in_range parse ''Valuation Date'' lo hi) (rows H)\<rparr> w4
      = (Inr (), w4\<lparr>disk := write_file [name, ''perf'', ''Holdings.csv'']
           (Csv \<lparr>columns = columns H, rows = filter (in_range parse ''Valuation Date'' lo hi) (rows H)\<rparr>)
           (disk w)\<rparr>)"
    using rd by (simp add: to_csv_def d4 period_folder_ready_def)
  have o2: "to_csv [name, ''perf'', ''Transactions.csv'']
        \<lparr>columns = columns T, rows = filter (in_range parse ''Transaction Date'' lo hi) (rows T)\<rparr>
        (w4\<lparr>disk := write_file [name, ''perf'', ''Holdings.csv'']
           (Csv \<lparr>columns = columns H, rows = filter (in_range parse ''Valuation Date'' lo hi) (rows H)\<rparr>)
           (disk w)\<rparr>)
      = (Inr (), w4\<lparr>disk := write_file [name, ''perf'', ''Transactions.csv'']
           (Csv \<lparr>columns = columns T, rows = filter (in_range parse ''Transaction Date'' lo hi) (rows T)\<rparr>)
           (write_file [name, ''perf'', ''Holdings.csv'']
              (Csv \<lparr>columns = columns H, rows = filter (in_range parse ''Valuation Date'' lo hi) (rows H)\<rparr>)
              (disk w))\<rparr>)"
    using rd by (simp add: to_csv_def writable_write_file period_folder_ready_def)
  have "filter_and_save_csv parse df_ho df_tr lo hi name w =
     (Inr (), w4\<lparr>disk := write_file [name, ''perf'', ''Transactions.csv'']
           (Csv \<lparr>columns = columns T, rows = filter (in_range parse ''Transaction Date'' lo hi) (rows T)\<rparr>)
           (write_file [name, ''perf'', ''Holdings.csv'']
              (Csv \<lparr>columns = columns H, rows = filter (in_range parse ''Valuation Date'' lo hi) (rows H)\<rparr>)
              (disk w))\<rparr>)"
    unfolding filter_and_save_csv_def by (simp add: c1 c2 a3 a4 r1 r2 o1 o2)
  then show ?thesis unfolding e4 H_def T_def by simp
qed

lemma write_file_lookup:
  "map_of (files (write_file p c fs)) q = (if q = p then Some c else map_of (files fs) q)"
  by (simp add: write_file_def update_conv')

lemma to_csv_lookup:
  "map_of (files (disk (snd (to_csv p df w)))) q
     = (if q = p \<and> writable (disk w) p then Some (Csv df) else map_of (files (disk w)) q)"
  by (simp add: to_csv_def write_file_lookup)

text \<open>
  Without the \<open>perf\<close> subfolder of the period nothing is written: the first \<open>to_csv\<close>
  raises.  So it is on the example tree as loaded, where no period folder has been made.
\<close>

lemma to_csv_missing_folder:
  "butlast p \<notin> set (dirs (disk w)) \<Longrightarrow> to_csv p df w = (Inl OSError, w)"
  by (simp add: to_csv_def writable_def)

lemma filter_and_save_csv_missing_folder:
  "fst (filter_and_save_csv parse_mdy 0 1 \<lparr>year = 2023, month = 1, day = 1\<rparr>
     \<lparr>year = 2023, month = 3, day = 31\<rparr> ''2023-03-31'' example_loaded) = Inl OSError
   \<and> disk (snd (filter_and_save_csv parse_mdy 0 1 \<lparr>year = 2023, month = 1, day = 1\<rparr>
     \<lparr>year = 2023, month = 3, day = 31\<rparr> ''2023-03-31'' example_loaded)) = disk example_loaded"
  by code_simp

lemma date_less_not_le: "date_less b a \<Longrightarrow> \<not> date_le a b"
  by (auto simp add: date_le_def date_less_def)

lemma create_folder_structure_inverted:
  "date_less end_date inception_date \<Longrightarrow>
   create_folder_structure inception_date end_date f fs = (Inr [], fs)"
  by (simp add: create_folder_structure_def folder_loop.simps[of f end_date inception_date]
      date_less_not_le)

section \<open>Folder names read back\<close>

lemma digit_val_digit_char: "digit_val (digit_char k) = Some (k mod 10)"
proof -
  define j where "j = k mod 10"
  have "j < 10" by (simp add: j_def)
  then have "j = 0 \<or> j = 1 \<or> j = 2 \<or> j = 3 \<or> j = 4 \<or> j = 5 \<or> j = 6 \<or> j = 7 \<or> j = 8 \<or> j = 9"
    by arith
  then have "digit_val (''0123456789'' ! j) = Some j"
    by (elim disjE) (simp_all add: digit_val_def)
  then show ?thesis by (simp add: digit_char_def j_def)
qed

lemma decimal_two_digits:
  assumes "n < 100"
  shows "decimal 0 (two_digits n) = Some n"
proof -
  have "n div 10 < 10" using assms by simp
  then have "n div 10 mod 10 = n div 10" by simp
  then have "10 * (n div 10 mod 10) + n mod 10 = n" by simp
  then show ?thesis by (simp add: two_digits_def digit_val_digit_char)
qed

lemma decimal_four_digits:
  assumes "n < 10000"
  shows "decimal 0 (four_digits n) = Some n"
proof -
  define a where "a = n div 1000"
  define b where "b = n div 100"
  define c where "c = n div 10"
  have ab: "a = b div 10" unfolding a_def b_def using div_mult2_eq[of n 100 10] by simp
  have bc: "b = c div 10" unfolding b_def c_def using div_mult2_eq[of n 10 10] by simp
  have b: "10 * a + b mod 10 = b" unfolding ab by simp
  have c: "10 * b + c mod 10 = c" unfolding bc by simp
  have n: "10 * c + n mod 10 = n" unfolding c_def by simp
  have "a < 10" using assms unfolding a_def by simp
  then have a: "a mod 10 = a" by simp
  have v: "10 * (10 * (10 * (a mod 10) + b mod 10) + c mod 10) + n mod 10 = n"
    unfolding a b c n by (rule refl)
  have "decimal 0 [digit_char a, digit_char b, digit_char c, digit_char n]
      = Some (10 * (10 * (10 * (a mod 10) + b mod 10) + c mod 10) + n mod 10)"
    by (simp add: digit_val_digit_char)
  then have "decimal 0 [digit_char a, digit_char b, digit_char c, digit_char n] = Some n"
    by (simp only: v)
  then show ?thesis by (simp only: four_digits_def a_def b_def c_def)
qed

lemma strptime_strftime:
  assumes "valid_date d"
  shows "strptime_ymd (strftime_ymd d) = Inr d"
proof -
  define y where "y = nat (year d)"
  define m where "m = nat (month d)"
  define k where "k = nat (day d)"
  have v: "1 \<le> year d" "year d \<le> 9999" "1 \<le> month d" "month d \<le> 12" "1 \<le> day d" "day d \<le> 31"
    using assms dim_le31[of "year d" "month d"] by (simp_all add: valid_date_def)
  have r: "y < 10000" "m < 100" "k < 100" "int y = year d" "int m = month d" "int k = day d"
    unfolding y_def m_def k_def using v by linarith+
  have l4: "length (four_digits y) = 4" by (simp add: four_digits_def)
  have l2: "length (two_digits m) = 2" "length (two_digits k) = 2" by (simp_all add: two_digits_def)
  define s where "s = four_digits y @ ''-'' @ two_digits m @ ''-'' @ two_digits k"
  have s: "strftime_ymd d = s" by (simp add: strftime_ymd_def s_def y_def m_def k_def)
  have len: "length s = 10" by (simp add: s_def l4 l2)
  have d4: "s ! 4 = CHR ''-''" by (simp add: s_def nth_append l4)
  have d7: "s ! 7 = CHR ''-''" by (simp add: s_def nth_append l4 l2)
  have t4: "take 4 s = four_digits y" by (simp add: s_def l4)
  have t2: "take 2 (drop 5 s) = two_digits m" by (simp add: s_def l4 l2)
  have t8: "drop 8 s = two_digits k" by (simp add: s_def l4 l2)
  have e: "\<lparr>year = year d, month = month d, day = day d\<rparr> = d" by (cases d) simp
  have "mk_datetime (year d) (month d) (day d) = Inr d"
    unfolding mk_datetime_def Let_def e using assms by simp
  then have "mk_datetime (int y) (int m) (int k) = Inr d"
    using r by simp
  then show ?thesis
    unfolding s strptime_ymd_def
    by (simp add: len d4 d7 t4 t2 t8 decimal_four_digits r decimal_two_digits)
qed

section \<open>The loop over the period folders\<close>

lemma strftime_ymd_inject:
  assumes "valid_date a" "valid_date b" "strftime_ymd a = strftime_ymd b"
  shows "a = b"
proof -
  have "strptime_ymd (strftime_ymd a) = strptime_ymd (strftime_ymd b)" using assms(3) by simp
  then show ?thesis using assms(1,2) by (simp add: strptime_strftime)
qed

lemma step_files:
  assumes "map_of (files (disk (snd m))) p = v"
    and "\<And>x w1. map_of (files (disk w1)) p = v \<Longrightarrow> map_of (files (disk (snd (rest x w1)))) p = v"
  shows "map_of (files (disk (snd (case m of (Inl e, w1) \<Rightarrow> (Inl e, w1) | (Inr x, w1) \<Rightarrow> rest x w1)))) p = v"
  using assms by (cases m; cases "fst m") auto

lemma step_files_pure:
  assumes "map_of (files (disk w)) p = v"
    and "\<And>x. map_of (files (disk (snd (rest x)))) p = v"
  shows "map_of (files (disk (snd (case m of Inl e \<Rightarrow> (Inl e, w) | Inr x \<Rightarrow> rest x)))) p = v"
  using assms by (cases m) auto

lemma filter_and_save_csv_frame:
  assumes "p \<noteq> [name, ''perf'', ''Holdings.csv'']" "p \<noteq> [name, ''perf'', ''Transactions.csv'']"
  shows "map_of (files (disk (snd (filter_and_save_csv parse df_ho df_tr lo hi name w)))) p
       = map_of (files (disk w)) p"
  unfolding filter_and_save_csv_def deepcopy_def
  using assms
  by (auto intro!: step_files step_files_pure
      simp add: assign_datetime_column_disk to_csv_lookup)

lemma process_folders_frame:
  assumes "\<And>n. n \<in> set names \<Longrightarrow> p \<noteq> [n, ''perf'', ''Holdings.csv''] \<and> p \<noteq> [n, ''perf'', ''Transactions.csv'']"
  shows "map_of (files (disk (snd (process_folders parse df_ho df_tr lo names w)))) p
       = map_of (files (disk w)) p"
  using assms
proof (induction names arbitrary: w)
  case Nil
  then show ?case by simp
next
  case (Cons name rest)
  show ?case
  proof (cases "strptime_ymd name")
    case (Inl e)
    then show ?thesis by simp
  next
    case (Inr folder_date)
    obtain x w' where f: "filter_and_save_csv parse df_ho df_tr lo folder_date name w = (x, w')"
      by (cases "filter_and_save_csv parse df_ho df_tr lo folder_date name w")
    have "p \<noteq> [name, ''perf'', ''Holdings.csv'']" "p \<noteq> [name, ''perf'', ''Transactions.csv'']"
      using Cons.prems[of name] by simp_all
    then have s: "map_of (files (disk w')) p = map_of (files (disk w)) p"
      using filter_and_save_csv_frame[of p name parse df_ho df_tr lo folder_date w] f by simp
    have r: "map_of (files (disk (snd (process_folders parse df_ho df_tr lo rest w')))) p
           = map_of (files (disk w')) p"
      using Cons.prems by (intro Cons.IH) simp
    show ?thesis using Inr f s r by (cases x) simp_all
  qed
qed

text \<open>The slices of the two source tables from a lower bound to a period end date.\<close>

definition slice :: "date_parser \<Rightarrow> string \<Rightarrow> datetime \<Rightarrow> datetime \<Rightarrow> dataframe \<Rightarrow> content" where
  "slice parse c lo hi df = Csv \<lparr>columns = columns df, rows = filter (in_range parse c lo hi) (rows df)\<rparr>"

lemma process_folders_result:
  assumes ho: "df_ho < length (heap w)" and tr: "df_tr < length (heap w)"
    and wf: "well_formed (heap w ! df_ho)" "well_formed (heap w ! df_tr)"
    and nh: "''Valuation Date Datetime'' \<notin> set (columns (heap w ! df_ho))"
            "''Transaction Date Datetime'' \<notin> set (columns (heap w ! df_tr))"
    and ap: "all_dates_parse parse ''Valuation Date'' (heap w ! df_ho)"
            "all_dates_parse parse ''Transaction Date'' (heap w ! df_tr)"
    and vs: "list_all valid_date ds"
    and rd: "list_all (\<lambda>d. period_folder_ready (disk w) (strftime_ymd d)) ds"
  shows "\<exists>w'. process_folders parse df_ho df_tr lo (map strftime_ymd ds) w = (Inr (), w')
       \<and> (\<forall>d \<in> set ds.
            map_of (files (disk w')) [strftime_ymd d, ''perf'', ''Holdings.csv'']
              = Some (slice parse ''Valuation Date'' lo d (heap w ! df_ho))
          \<and> map_of (files (disk w')) [strftime_ymd d, ''perf'', ''Transactions.csv'']
              = Some (slice parse ''Transaction Date'' lo d (heap w ! df_tr)))"
  using ho tr wf nh ap vs rd
proof (induction ds arbitrary: w)
  case Nil
  then show ?case by simp
next
  case (Cons d ds)
  define H where "H = heap w ! df_ho"
  define T where "T = heap w ! df_tr"
  define w1 where "w1 =
      w\<lparr>heap := heap w @
           [with_stamps parse ''Valuation Date'' ''Valuation Date Datetime'' H,
            with_stamps parse ''Transaction Date'' ''Transaction Date Datetime'' T],
        disk :=
          write_file [strftime_ymd d, ''perf'', ''Transactions.csv'']
            (Csv \<lparr>columns = columns T, rows = filter (in_range parse ''Transaction Date'' lo d) (rows T)\<rparr>)
            (write_file [strftime_ymd d, ''perf'', ''Holdings.csv'']
               (Csv \<lparr>columns = columns H, rows = filter (in_range parse ''Valuation Date'' lo d) (rows H)\<rparr>)
               (disk w))\<rparr>"
  have vd: "valid_date d" and vds: "list_all valid_date ds" using Cons.prems(9) by simp_all
  have rd: "period_folder_ready (disk w) (strftime_ymd d)"
    and rds: "list_all (\<lambda>d. period_folder_ready (disk w) (strftime_ymd d)) ds"
    using Cons.prems(10) by simp_all
  have f: "filter_and_save_csv parse df_ho df_tr lo d (strftime_ymd d) w = (Inr (), w1)"
    unfolding w1_def H_def T_def using Cons.prems(1-8) rd by (rule filter_and_save_csv_result)
  have h1: "heap w1 = heap w @
                 [with_stamps parse ''Valuation Date'' ''Valuation Date Datetime'' H,
                  with_stamps parse ''Transaction Date'' ''Transaction Date Datetime'' T]"
    by (simp add: w1_def)
  have d1: "dirs (disk w1) = dirs (disk w)" by (simp add: w1_def write_file_def)
  have n1: "heap w1 ! df_ho = H" "heap w1 ! df_tr = T"
    using Cons.prems(1,2) by (simp_all add: h1 nth_append H_def T_def)
  have l1: "df_ho < length (heap w1)" "df_tr < length (heap w1)"
    using Cons.prems(1,2) by (simp_all add: h1)
  have "\<exists>w'. process_folders parse df_ho df_tr lo (map strftime_ymd ds) w1 = (Inr (), w')
       \<and> (\<forall>d \<in> set ds.
            map_of (files (disk w')) [strftime_ymd d, ''perf'', ''Holdings.csv'']
              = Some (slice parse ''Valuation Date'' lo d (heap w1 ! df_ho))
          \<and> map_of (files (disk w')) [strftime_ymd d, ''perf'', ''Transactions.csv'']
              = Some (slice parse ''Transaction Date'' lo d (heap w1 ! df_tr)))"
  proof (rule Cons.IH)
    show "df_ho < length (heap w1)" "df_tr < length (heap w1)" by (rule l1)+
    show "well_formed (heap w1 ! df_ho)" "well_formed (heap w1 ! df_tr)"
      using Cons.prems(3,4) by (simp_all add: n1 H_def T_def)
    show "''Valuation Date Datetime'' \<notin> set (columns (heap w1 ! df_ho))"
      using Cons.prems(5) by (simp add: n1 H_def)
    show "''Transaction Date Datetime'' \<notin> set (columns (heap w1 ! df_tr))"
      using Cons.prems(6) by (simp add: n1 T_def)
    show "all_dates_parse parse ''Valuation Date'' (heap w1 ! df_ho)"
      using Cons.prems(7) by (simp add: n1 H_def)
    show "all_dates_parse parse ''Transaction Date'' (heap w1 ! df_tr)"
      using Cons.prems(8) by (simp add: n1 T_def)
    show "list_all valid_date ds" by (rule vds)
    show "list_all (\<lambda>d. period_folder_ready (disk w1) (strftime_ymd d)) ds"
      using rds by (simp add: period_folder_ready_dirs[OF d1])
  qed
  then obtain w' where p: "process_folders parse df_ho df_tr lo (map strftime_ymd ds) w1 = (Inr (), w')"
    and r: "\<And>d'. d' \<in> set ds \<Longrightarrow>
            map_of (files (disk w')) [strftime_ymd d', ''perf'', ''Holdings.csv'']
              = Some (slice parse ''Valuation Date'' lo d' H)
          \<and> map_of (files (disk w')) [strftime_ymd d', ''perf'', ''Transactions.csv'']
              = Some (slice parse ''Transaction Date'' lo d' T)"
    unfolding n1 by blast
  have all: "process_folders parse df_ho df_tr lo (map strftime_ymd (d # ds)) w = (Inr (), w')"
    by (simp add: strptime_strftime[OF vd] f p)
  have head: "map_of (files (disk w')) [strftime_ymd d, ''perf'', ''Holdings.csv'']
              = Some (slice parse ''Valuation Date'' lo d H)
          \<and> map_of (files (disk w')) [strftime_ymd d, ''perf'', ''Transactions.csv'']
              = Some (slice parse ''Transaction Date'' lo d T)"
  proof (cases "d \<in> set ds")
    case True
    then show ?thesis by (rule r)
  next
    case False
    have ne: "strftime_ymd d \<noteq> n" if n: "n \<in> set (map strftime_ymd ds)" for n
    proof -
      obtain d' where d': "d' \<in> set ds" "n = strftime_ymd d'" using n by auto
      then have "valid_date d'" using vds by (simp add: list_all_iff)
      then show ?thesis using strftime_ymd_inject[OF vd, of d'] d' False by blast
    qed
    have "map_of (files (disk (snd (process_folders parse df_ho df_tr lo (map strftime_ymd ds) w1)))) q
        = map_of (files (disk w1)) q"
      if "q = [strftime_ymd d, ''perf'', ''Holdings.csv''] \<or> q = [strftime_ymd d, ''perf'', ''Transactions.csv'']" for q
      using that ne by (intro process_folders_frame) auto
    then have "map_of (files (disk w')) [strftime_ymd d, ''perf'', ''Holdings.csv'']
          = map_of (files (disk w1)) [strftime_ymd d, ''perf'', ''Holdings.csv'']"
        "map_of (files (disk w')) [strftime_ymd d, ''perf'', ''Transactions.csv'']
          = map_of (files (disk w1)) [strftime_ymd d, ''perf'', ''Transactions.csv'']"
      using p by simp_all
    then show ?thesis by (simp add: w1_def write_file_lookup slice_def)
  qed
  show ?case unfolding H_def[symmetric] T_def[symmetric] using all head r by auto
qed

text \<open>The ordinal counts days: the day after has the next ordinal.\<close>

lemma toordinal_next_day:
  assumes "valid_date d"
  shows "toordinal (next_day d) = toordinal d + 1"
proof -
  have m: "1 \<le> month d" "month d \<le> 12" using assms by (simp_all add: valid_date_def)
  consider (inside) "day d < days_in_month (year d) (month d)"
    | (month_end) "day d = days_in_month (year d) (month d)" "month d < 12"
    | (year_end) "day d = days_in_month (year d) (month d)" "month d = 12"
  proof -
    have "day d \<le> days_in_month (year d) (month d)" using assms by (simp add: valid_date_def)
    then have "day d < days_in_month (year d) (month d) \<or> day d = days_in_month (year d) (month d)"
      by linarith
    moreover have "month d < 12 \<or> month d = 12" using m by linarith
    ultimately show ?thesis using that by blast
  qed
  then show ?thesis
  proof cases
    case inside
    then show ?thesis by (simp add: next_day_def toordinal_def)
  next
    case month_end
    then have "days_before_month (year d) (month d + 1)
        = days_before_month (year d) (month d) + days_in_month (year d) (month d)"
      using m by (intro days_before_month_step) simp_all
    then show ?thesis using month_end by (simp add: next_day_def toordinal_def)
  next
    case year_end
    have "days_in_month (year d) 12 = 31" by (simp add: days_in_month_def)
    moreover have "days_before_month (year d) 12 = 334 + (if is_leap (year d) then 1 else 0)"
      by (simp add: days_before_month_def)
    moreover have "days_before_month (year d + 1) 1 = 0" by (simp add: days_before_month_def)
    ultimately show ?thesis using year_end
      by (simp add: next_day_def toordinal_def days_before_year_step)
  qed
qed

section \<open>The claims\<close>

text \<open>
  Claim C1.  The spec's scenario: inception 2023-01-01, end 2023-07-10, quarterly, is
  said to give the three folders 2023-03-31, 2023-06-30 and 2023-07-10.  The code returns
  the first two only: after 2023-06-30 the next anchor is 2023-09-30 (the period end plus
  three months), which lies after the end date, so the loop is left before the clamped
  last period is reached.  The theorem evaluates the code on the scenario, starting from
  an empty folder tree.
\<close>

theorem C1_quarterly_scenario_misses_last_period:
  "fst (create_folder_structure \<lparr>year = 2023, month = 1, day = 1\<rparr>
          \<lparr>year = 2023, month = 7, day = 10\<rparr> Quarterly \<lparr>dirs = [], files = []\<rparr>)
     = Inr [''2023-03-31'', ''2023-06-30'']"
  by code_simp

text \<open>
  Claim C2.  For every inception date on or before the end date and every frequency, the
  sequence of period end dates is said to be non-empty and to end with the end date
  itself.  The code stops short of it: the next anchor is the period end moved on by a
  whole period, and once that anchor lies after the end date the loop is left, although
  the days between the last period end and the end date are still uncovered.  The theorem
  evaluates the code for 2023-01-15 to 2023-02-10, monthly: the only folder is 2023-01-31.
\<close>

theorem C2_monthly_run_stops_before_end_date:
  "fst (create_folder_structure \<lparr>year = 2023, month = 1, day = 15\<rparr>
          \<lparr>year = 2023, month = 2, day = 10\<rparr> Monthly \<lparr>dirs = [], files = []\<rparr>)
     = Inr [''2023-01-31'']"
  by code_simp

text \<open>
  Claim C5 (amended).  For every date \<open>d\<close> and every frequency, except monthly with
  \<open>d\<close> in December 9999, \<open>get_period_end_date\<close> returns the last day of the period
  unit of \<open>d\<close> as the spec words it: the result is a date, it is on or after \<open>d\<close>, it
  lies in the same unit as \<open>d\<close>, and the day after it does not.  (For the month, the
  length used is 28, 29, 30 or 31 as the calendar has it, leap years included.)
\<close>

theorem C5_period_end_is_last_day_of_unit:
  assumes "valid_date d" "\<not> (f = Monthly \<and> in_december_9999 d)"
  shows "get_period_end_date d f = Inr (last_day_of_period d f)
       \<and> valid_date (last_day_of_period d f)
       \<and> date_le d (last_day_of_period d f)
       \<and> same_period f d (last_day_of_period d f)
       \<and> \<not> same_period f d (next_day (last_day_of_period d f))"
proof -
  have r: "get_period_end_date d f = Inr (last_day_of_period d f)"
    using assms by (rule get_period_end_date_spec)
  have "valid_date (last_day_of_period d f) \<and> date_le d (last_day_of_period d f)"
    using assms(1) r by (rule get_period_end_date_valid)
  then show ?thesis
    using r last_day_same_period[OF assms(1)] day_after_last_day[OF assms(1)] by simp
qed

theorem C5_witness_leap_february:
  "get_period_end_date \<lparr>year = 2024, month = 2, day = 10\<rparr> Monthly
      = Inr \<lparr>year = 2024, month = 2, day = 29\<rparr>
   \<and> date_le \<lparr>year = 2024, month = 2, day = 10\<rparr> \<lparr>year = 2024, month = 2, day = 29\<rparr>"
  using C5_period_end_is_last_day_of_unit[of "\<lparr>year = 2024, month = 2, day = 10\<rparr>" Monthly]
  by (simp add: valid_date_def days_in_month_def is_leap_def in_december_9999_def
      last_day_of_period_def del: get_period_end_date.simps)

text \<open>
  In December 9999 the monthly computation has no result: day 28 plus four days is a date
  of the year 10000, which a \<open>datetime\<close> cannot hold.
\<close>

theorem C5_counterexample_december_9999:
  "valid_date \<lparr>year = 9999, month = 12, day = 15\<rparr>
   \<and> get_period_end_date \<lparr>year = 9999, month = 12, day = 15\<rparr> Monthly = Inl OverflowError"
  by (simp add: month_end_overflow valid_date_def days_in_month_def del: get_period_end_date.simps)

text \<open>
  Claim C6 (amended).  For every inception date on or before the end date and every
  frequency, except monthly with an end date in December 9999, the sequencer returns the
  folder names of a sequence of period end dates that is strictly increasing (so without
  duplicates) and whose first element is the period end of the inception date, replaced
  by the end date when it lies after it.
\<close>

theorem C6_sequence_strictly_increasing:
  assumes "valid_date inception_date" "valid_date end_date"
    and "date_le inception_date end_date"
    and "\<not> (f = Monthly \<and> in_december_9999 end_date)"
  shows "\<exists>ds pe. fst (create_folder_structure inception_date end_date f fs) = Inr (map strftime_ymd ds)
           \<and> period_ends f end_date inception_date = (ds, None)
           \<and> sorted_wrt date_less ds \<and> distinct ds
           \<and> get_period_end_date inception_date f = Inr pe
           \<and> ds \<noteq> [] \<and> hd ds = (if date_less end_date pe then end_date else pe)"
proof -
  define ds where "ds = fst (period_ends f end_date inception_date)"
  have ne: "snd (period_ends f end_date inception_date) = None"
    using assms(1,2,4) by (rule period_ends_no_error)
  then have p: "period_ends f end_date inception_date = (ds, None)"
    by (simp add: ds_def prod_eq_iff)
  have "\<not> (f = Monthly \<and> in_december_9999 inception_date)"
    using before_december_9999[OF assms(2,3)] assms(4) by blast
  then obtain pe where pe: "get_period_end_date inception_date f = Inr pe"
    using get_period_end_date_returns[OF assms(1)] by blast
  have s: "sorted_wrt date_less ds" unfolding ds_def using assms(1) by (rule period_ends_sorted)
  have h: "ds \<noteq> [] \<and> hd ds = (if date_less end_date pe then end_date else pe)"
    unfolding ds_def using assms(3) pe by (rule period_ends_first)
  have "fst (create_folder_structure inception_date end_date f fs) = Inr (map strftime_ymd ds)"
    by (simp add: create_folder_structure_def folder_loop_period_ends p)
  then show ?thesis using p s sorted_wrt_date_less_distinct[OF s] pe h by blast
qed

theorem C6_witness_quarterly:
  "\<exists>ds pe. fst (create_folder_structure \<lparr>year = 2023, month = 1, day = 1\<rparr>
                \<lparr>year = 2023, month = 7, day = 10\<rparr> Quarterly \<lparr>dirs = [], files = []\<rparr>)
              = Inr (map strftime_ymd ds)
           \<and> period_ends Quarterly \<lparr>year = 2023, month = 7, day = 10\<rparr>
                \<lparr>year = 2023, month = 1, day = 1\<rparr> = (ds, None)
           \<and> sorted_wrt date_less ds \<and> distinct ds
           \<and> get_period_end_date \<lparr>year = 2023, month = 1, day = 1\<rparr> Quarterly = Inr pe
           \<and> ds \<noteq> []
           \<and> hd ds = (if date_less \<lparr>year = 2023, month = 7, day = 10\<rparr> pe
                      then \<lparr>year = 2023, month = 7, day = 10\<rparr> else pe)"
  by (rule C6_sequence_strictly_increasing)
     (simp_all add: valid_date_def days_in_month_def date_le_def date_less_def)

theorem C6_counterexample_december_9999:
  "date_le \<lparr>year = 9999, month = 12, day = 15\<rparr> \<lparr>year = 9999, month = 12, day = 20\<rparr>
   \<and> create_folder_structure \<lparr>year = 9999, month = 12, day = 15\<rparr>
        \<lparr>year = 9999, month = 12, day = 20\<rparr> Monthly \<lparr>dirs = [], files = []\<rparr>
      = (Inl OverflowError, \<lparr>dirs = [], files = []\<rparr>)"
  by code_simp

text \<open>
  Claim C7 (amended).  For every date \<open>d\<close> and every frequency, except monthly with
  \<open>d\<close> in December 9999, the sequencer with inception date \<open>d\<close> and end date \<open>d\<close>
  emits exactly the one period \<open>d\<close>.
\<close>

theorem C7_single_day_range:
  assumes "valid_date d" "\<not> (f = Monthly \<and> in_december_9999 d)"
  shows "period_ends f d d = ([d], None)
       \<and> fst (create_folder_structure d d f fs) = Inr [strftime_ymd d]"
proof -
  obtain pe where "get_period_end_date d f = Inr pe"
    using get_period_end_date_returns[OF assms] by blast
  then have "period_ends f d d = ([d], None)"
    using assms(1) by (intro period_ends_same_day)
  then show ?thesis by (simp add: create_folder_structure_def folder_loop_period_ends)
qed

theorem C7_witness_leap_day:
  "period_ends Quarterly \<lparr>year = 2024, month = 2, day = 29\<rparr> \<lparr>year = 2024, month = 2, day = 29\<rparr>
     = ([\<lparr>year = 2024, month = 2, day = 29\<rparr>], None)
   \<and> fst (create_folder_structure \<lparr>year = 2024, month = 2, day = 29\<rparr>
            \<lparr>year = 2024, month = 2, day = 29\<rparr> Quarterly \<lparr>dirs = [], files = []\<rparr>)
     = Inr [strftime_ymd \<lparr>year = 2024, month = 2, day = 29\<rparr>]"
  by (rule C7_single_day_range)
     (simp_all add: valid_date_def days_in_month_def is_leap_def)

theorem C7_counterexample_december_9999:
  "fst (create_folder_structure \<lparr>year = 9999, month = 12, day = 31\<rparr>
          \<lparr>year = 9999, month = 12, day = 31\<rparr> Monthly \<lparr>dirs = [], files = []\<rparr>)
     = Inl OverflowError"
  by code_simp



text \<open>
  Claim C3 (amended).  When the end date is earlier than the inception date, the
  sequencer returns the empty sequence without an error and leaves the folder tree as it
  is, and the run raises no configuration error: it goes on to load the two tables and,
  unless loading fails, prints \<open>Run is done!\<close>, with no folder created and no file
  written.
\<close>

theorem C3_inverted_range_is_not_an_error:
  assumes "date_less end_date inception_date"
  shows "create_folder_structure inception_date end_date f (disk w) = (Inr [], disk w)
       \<and> main parse inception_date end_date source_folder f w =
           (case load_csv_files source_folder w of
              (Inl e, w') \<Rightarrow> (Error_printed e, w')
            | (Inr tables, w') \<Rightarrow> (Run_is_done, w'))
       \<and> disk (snd (main parse inception_date end_date source_folder f w)) = disk w"
proof -
  have c: "create_folder_structure inception_date end_date f (disk w) = (Inr [], disk w)"
    using assms by (rule create_folder_structure_inverted)
  have m: "main parse inception_date end_date source_folder f w =
           (case load_csv_files source_folder w of
              (Inl e, w') \<Rightarrow> (Error_printed e, w')
            | (Inr tables, w') \<Rightarrow> (Run_is_done, w'))"
    by (simp add: main_def c split: prod.splits sum.splits)
  have "disk (snd (main parse inception_date end_date source_folder f w))
      = disk (snd (load_csv_files source_folder w))"
    unfolding m by (simp split: prod.splits sum.splits)
  then show ?thesis using c m load_csv_files_disk[of source_folder w] by simp
qed

theorem C3_witness_inverted_daily:
  "create_folder_structure \<lparr>year = 2023, month = 1, day = 20\<rparr> \<lparr>year = 2023, month = 1, day = 15\<rparr>
     Daily (disk example_world) = (Inr [], disk example_world)"
  using C3_inverted_range_is_not_an_error[of "\<lparr>year = 2023, month = 1, day = 15\<rparr>"
      "\<lparr>year = 2023, month = 1, day = 20\<rparr>" Daily example_world]
  by (simp add: date_less_def)

text \<open>
  The run with inception 2023-07-10 and end 2023-01-01 on the example tree: it ends with
  \<open>Run is done!\<close> and the tree is as before.
\<close>

theorem C3_counterexample_inverted_run_is_done:
  "date_less \<lparr>year = 2023, month = 1, day = 1\<rparr> \<lparr>year = 2023, month = 7, day = 10\<rparr>
   \<and> fst (main parse_mdy \<lparr>year = 2023, month = 7, day = 10\<rparr> \<lparr>year = 2023, month = 1, day = 1\<rparr>
        ''2023-07-10-source'' Quarterly example_world) = Run_is_done
   \<and> disk (snd (main parse_mdy \<lparr>year = 2023, month = 7, day = 10\<rparr> \<lparr>year = 2023, month = 1, day = 1\<rparr>
        ''2023-07-10-source'' Quarterly example_world)) = disk example_world"
  by code_simp




text \<open>
  Claim C9.  Filtering never changes the two source tables: \<open>filter_and_save_csv\<close> works
  on fresh copies, so after a call, and after the whole loop of \<open>main\<close> over the period
  folders, the objects that \<open>df_ho\<close> and \<open>df_tr\<close> refer to are what they were before
  (also when a call ends with an exception).
\<close>

theorem C9_source_tables_unchanged:
  assumes "df_ho < length (heap w)" "df_tr < length (heap w)"
  shows "heap (snd (filter_and_save_csv parse df_ho df_tr inception_date folder_date folder_name w)) ! df_ho
           = heap w ! df_ho
       \<and> heap (snd (filter_and_save_csv parse df_ho df_tr inception_date folder_date folder_name w)) ! df_tr
           = heap w ! df_tr
       \<and> heap (snd (process_folders parse df_ho df_tr inception_date folders w)) ! df_ho = heap w ! df_ho
       \<and> heap (snd (process_folders parse df_ho df_tr inception_date folders w)) ! df_tr = heap w ! df_tr"
  using assms
    store_prefix_nth[OF filter_and_save_csv_store, of df_ho w parse df_ho df_tr inception_date folder_date folder_name]
    store_prefix_nth[OF filter_and_save_csv_store, of df_tr w parse df_ho df_tr inception_date folder_date folder_name]
    store_prefix_nth[OF process_folders_store, of df_ho w parse df_ho df_tr inception_date folders]
    store_prefix_nth[OF process_folders_store, of df_tr w parse df_ho df_tr inception_date folders]
  by simp

theorem C9_witness_example_tables:
  "heap (snd (filter_and_save_csv parse_mdy 0 1 \<lparr>year = 2023, month = 1, day = 1\<rparr>
           \<lparr>year = 2023, month = 3, day = 31\<rparr> ''2023-03-31'' example_loaded)) ! 0 = example_holdings
   \<and> heap (snd (process_folders parse_mdy 0 1 \<lparr>year = 2023, month = 1, day = 1\<rparr>
           [''2023-03-31'', ''2023-06-30''] example_loaded)) ! 1 = example_transactions"
  using C9_source_tables_unchanged[of 0 example_loaded 1 parse_mdy "\<lparr>year = 2023, month = 1, day = 1\<rparr>"
      "\<lparr>year = 2023, month = 3, day = 31\<rparr>" "''2023-03-31''" "[''2023-03-31'', ''2023-06-30'']"]
  by (simp add: example_loaded_def)

text \<open>
  Claim C8 (amended).  For every pair of source tables that do not already have a column
  named like the scratch column of the filter (\<open>Valuation Date Datetime\<close>,
  \<open>Transaction Date Datetime\<close>) and whose date fields all parse, and for every period
  end date whose folder is ready for the two files (its \<open>perf\<close> subfolder exists, as
  \<open>create_folder_structure\<close> leaves it, and neither file name is taken by a folder;
  \<open>to_csv\<close> raises \<open>OSError\<close> otherwise), \<open>filter_and_save_csv\<close> returns and
  writes for each table exactly the rows whose date lies in the inclusive range from the
  inception date to the period end date, in their original order and with all their
  fields and the columns of the table as they were.  The lower bound is the inception
  date of the run for every period: after the loop of \<open>main\<close> over the folders of any
  period end dates, the folder of each of them holds the slices from the inception date
  to that date.
\<close>

theorem C8_filter_writes_rows_in_range:
  assumes "df_ho < length (heap w)" "df_tr < length (heap w)"
    and "well_formed (heap w ! df_ho)" "well_formed (heap w ! df_tr)"
    and "''Valuation Date Datetime'' \<notin> set (columns (heap w ! df_ho))"
    and "''Transaction Date Datetime'' \<notin> set (columns (heap w ! df_tr))"
    and "all_dates_parse parse ''Valuation Date'' (heap w ! df_ho)"
    and "all_dates_parse parse ''Transaction Date'' (heap w ! df_tr)"
    and "period_folder_ready (disk w) folder_name"
    and "list_all valid_date ds"
    and "list_all (\<lambda>d. period_folder_ready (disk w) (strftime_ymd d)) ds"
  shows "(\<exists>w'. filter_and_save_csv parse df_ho df_tr inception_date folder_date folder_name w = (Inr (), w')
          \<and> map_of (files (disk w')) [folder_name, ''perf'', ''Holdings.csv'']
              = Some (Csv \<lparr>columns = columns (heap w ! df_ho),
                           rows = filter (in_range parse ''Valuation Date'' inception_date folder_date)
                                    (rows (heap w ! df_ho))\<rparr>)
          \<and> map_of (files (disk w')) [folder_name, ''perf'', ''Transactions.csv'']
              = Some (Csv \<lparr>columns = columns (heap w ! df_tr),
                           rows = filter (in_range parse ''Transaction Date'' inception_date folder_date)
                                    (rows (heap w ! df_tr))\<rparr>))
       \<and> (\<exists>w'. process_folders parse df_ho df_tr inception_date (map strftime_ymd ds) w = (Inr (), w')
          \<and> (\<forall>d \<in> set ds.
                map_of (files (disk w')) [strftime_ymd d, ''perf'', ''Holdings.csv'']
                  = Some (slice parse ''Valuation Date'' inception_date d (heap w ! df_ho))
              \<and> map_of (files (disk w')) [strftime_ymd d, ''perf'', ''Transactions.csv'']
                  = Some (slice parse ''Transaction Date'' inception_date d (heap w ! df_tr))))"
proof
  show "\<exists>w'. filter_and_save_csv parse df_ho df_tr inception_date folder_date folder_name w = (Inr (), w')
          \<and> map_of (files (disk w')) [folder_name, ''perf'', ''Holdings.csv'']
              = Some (Csv \<lparr>columns = columns (heap w ! df_ho),
                           rows = filter (in_range parse ''Valuation Date'' inception_date folder_date)
                                    (rows (heap w ! df_ho))\<rparr>)
          \<and> map_of (files (disk w')) [folder_name, ''perf'', ''Transactions.csv'']
              = Some (Csv \<lparr>columns = columns (heap w ! df_tr),
                           rows = filter (in_range parse ''Transaction Date'' inception_date folder_date)
                                    (rows (heap w ! df_tr))\<rparr>)"
    using filter_and_save_csv_result[OF assms(1-9), of inception_date folder_date]
    by (simp add: write_file_lookup)
  show "\<exists>w'. process_folders parse df_ho df_tr inception_date (map strftime_ymd ds) w = (Inr (), w')
          \<and> (\<forall>d \<in> set ds.
                map_of (files (disk w')) [strftime_ymd d, ''perf'', ''Holdings.csv'']
                  = Some (slice parse ''Valuation Date'' inception_date d (heap w ! df_ho))
              \<and> map_of (files (disk w')) [strftime_ymd d, ''perf'', ''Transactions.csv'']
                  = Some (slice parse ''Transaction Date'' inception_date d (heap w ! df_tr)))"
    using assms(1-8,10,11) by (rule process_folders_result)
qed

text \<open>
  The example tree with the folders of the quarterly run from 2023-01-01 to 2023-07-10
  and the two tables loaded; the folders are those that the sequencer makes.
\<close>

definition example_prepared :: world where
  "example_prepared =
     \<lparr>heap = [example_holdings, example_transactions],
      disk = \<lparr>dirs = [[''2023-07-10-source''], [''2023-07-10-source'', ''perf''],
                      [''2023-03-31''], [''2023-03-31'', ''context_data''],
                      [''2023-03-31'', ''perf''], [''2023-03-31'', ''portfolio''],
                      [''2023-06-30''], [''2023-06-30'', ''context_data''],
                      [''2023-06-30'', ''perf''], [''2023-06-30'', ''portfolio'']],
              files = [([''2023-07-10-source'', ''perf'', ''Holdings.csv''], Csv example_holdings),
                       ([''2023-07-10-source'', ''perf'', ''Transactions.csv''], Csv example_transactions)]\<rparr>\<rparr>"

lemma example_prepared_disk:
  "create_folder_structure \<lparr>year = 2023, month = 1, day = 1\<rparr> \<lparr>year = 2023, month = 7, day = 10\<rparr>
     Quarterly (disk example_world) = (Inr [''2023-03-31'', ''2023-06-30''], disk example_prepared)"
  by code_simp

text \<open>
  On the example tables, in the two folders that the sequencer has made: the folder of
  the second quarter holds the rows from the inception date on, those of the first
  quarter included.
\<close>

theorem C8_witness_two_quarters:
  "\<exists>w'. process_folders parse_mdy 0 1 \<lparr>year = 2023, month = 1, day = 1\<rparr>
          (map strftime_ymd [\<lparr>year = 2023, month = 3, day = 31\<rparr>, \<lparr>year = 2023, month = 6, day = 30\<rparr>])
          example_prepared = (Inr (), w')
       \<and> map_of (files (disk w')) [strftime_ymd \<lparr>year = 2023, month = 6, day = 30\<rparr>, ''perf'', ''Holdings.csv'']
           = Some (slice parse_mdy ''Valuation Date'' \<lparr>year = 2023, month = 1, day = 1\<rparr>
                     \<lparr>year = 2023, month = 6, day = 30\<rparr> (heap example_prepared ! 0))"
proof -
  have 1: "0 < length (heap example_prepared)" "1 < length (heap example_prepared)"
    by (simp_all add: example_prepared_def)
  have 2: "well_formed (heap example_prepared ! 0)" "well_formed (heap example_prepared ! 1)"
    by (simp_all add: example_prepared_def well_formed_def example_holdings_def example_transactions_def)
  have 3: "''Valuation Date Datetime'' \<notin> set (columns (heap example_prepared ! 0))"
    by (simp add: example_prepared_def example_holdings_def)
  have 4: "''Transaction Date Datetime'' \<notin> set (columns (heap example_prepared ! 1))"
    by (simp add: example_prepared_def example_transactions_def)
  have 5: "all_dates_parse parse_mdy ''Valuation Date'' (heap example_prepared ! 0)"
    by code_simp
  have 6: "all_dates_parse parse_mdy ''Transaction Date'' (heap example_prepared ! 1)"
    by code_simp
  have 7: "period_folder_ready (disk example_prepared) ''2023-03-31''"
    by code_simp
  have 8: "list_all valid_date [\<lparr>year = 2023, month = 3, day = 31\<rparr>, \<lparr>year = 2023, month = 6, day = 30\<rparr>]"
    by (simp add: valid_date_def days_in_month_def)
  have r: "period_folder_ready (disk example_prepared) ''2023-06-30''"
    by code_simp
  have n: "strftime_ymd \<lparr>year = 2023, month = 3, day = 31\<rparr> = ''2023-03-31''"
          "strftime_ymd \<lparr>year = 2023, month = 6, day = 30\<rparr> = ''2023-06-30''"
    by code_simp+
  have 9: "list_all (\<lambda>d. period_folder_ready (disk example_prepared) (strftime_ymd d))
             [\<lparr>year = 2023, month = 3, day = 31\<rparr>, \<lparr>year = 2023, month = 6, day = 30\<rparr>]"
    using 7 r by (simp only: list.pred_inject n simp_thms)
  show ?thesis
    using C8_filter_writes_rows_in_range[OF 1 2 3 4 5 6 7 8 9, of "\<lparr>year = 2023, month = 1, day = 1\<rparr>"]
    by auto
qed

text \<open>
  A Holdings table that has a column named \<open>Valuation Date Datetime\<close> loses it: the
  filter overwrites the column with the parsed dates and drops it from what it writes.
  The folder of the period is ready and the call returns.
\<close>

definition example_holdings_with_scratch_name :: dataframe where
  "example_holdings_with_scratch_name =
     \<lparr>columns = [''Valuation Date'', ''Valuation Date Datetime'', ''Quantity''],
      rows = [[(''Valuation Date'', Str ''02/15/2023''), (''Valuation Date Datetime'', Str ''noon''),
               (''Quantity'', Str ''10'')]]\<rparr>"

theorem C8_counterexample_scratch_column_name:
  "all_dates_parse parse_mdy ''Valuation Date'' example_holdings_with_scratch_name
   \<and> period_folder_ready (disk example_prepared) ''2023-03-31''
   \<and> fst (filter_and_save_csv parse_mdy 0 1 \<lparr>year = 2023, month = 1, day = 1\<rparr>
        \<lparr>year = 2023, month = 3, day = 31\<rparr> ''2023-03-31''
        (example_prepared\<lparr>heap := [example_holdings_with_scratch_name, example_transactions]\<rparr>)) = Inr ()
   \<and> map_of (files (disk (snd (filter_and_save_csv parse_mdy 0 1 \<lparr>year = 2023, month = 1, day = 1\<rparr>
        \<lparr>year = 2023, month = 3, day = 31\<rparr> ''2023-03-31''
        (example_prepared\<lparr>heap := [example_holdings_with_scratch_name, example_transactions]\<rparr>)))))
        [''2023-03-31'', ''perf'', ''Holdings.csv'']
     = Some (Csv \<lparr>columns = [''Valuation Date'', ''Quantity''],
                  rows = [[(''Valuation Date'', Str ''02/15/2023''), (''Quantity'', Str ''10'')]]\<rparr>)"
  by code_simp

end
